theory Spec2Isabelle
  imports Complex_Main "HOL-Library.Sublist"
begin

unbundle bit_operations_syntax

section \<open>qasm2stim: the OpenQASM 2 to Stim translator of \<^verbatim>\<open>qasm2stim.cpp\<close>\<close>

text \<open>
  The translator is one C++ file. A \<^verbatim>\<open>Circuit\<close> holds the input buffer \<^verbatim>\<open>qasm\<close>
  (\<^verbatim>\<open>size\<close> bytes), the pointer \<^verbatim>\<open>eof\<close> behind its last byte, the output buffer
  \<^verbatim>\<open>stim\<close> (\<^verbatim>\<open>size + 1\<close> bytes), the name of the gate written last (\<^verbatim>\<open>prev\<close>) and
  the digits of the last \<^verbatim>\<open>qreg\<close> (\<^verbatim>\<open>max_qubits\<close>). \<^verbatim>\<open>to_stim\<close> walks a pointer
  \<^verbatim>\<open>from\<close> over the input and a pointer \<^verbatim>\<open>to\<close> over the output.

  The embedding:
  \<^item> a \<^verbatim>\<open>char*\<close> into the input is the list of the bytes that can be read from the
    pointer on: the bytes of the file up to \<^verbatim>\<open>eof\<close> and then what the platform has
    there, a NUL byte or nothing. A read through a pointer whose list is empty is a
    read outside the buffer; the C++ gives it no meaning, and the model ends with
    \<open>OutOfBounds\<close>. \<^verbatim>\<open>from < eof\<close> compares the lengths of the two lists;
  \<^item> a C string (\<^verbatim>\<open>prev\<close>, \<^verbatim>\<open>max_qubits\<close>, a name of the catalog, the local
    \<^verbatim>\<open>gate_qasm\<close>) is the list of its bytes before the NUL, and the byte read at its
    end is that NUL (\<open>peek [] = NUL\<close>);
  \<^item> the bytes stored through \<^verbatim>\<open>to\<close> are a list that only grows at its end; the
    capacity of the C buffer is not part of the list, it is compared with the list's
    length where a statement is about it;
  \<^item> \<^verbatim>\<open>LOGERROR\<close> prints and calls \<^verbatim>\<open>exit(1)\<close>: a function that can reach it
    returns \<open>error + 'a\<close>, with \<open>Inl\<close> for the exit;
  \<^item> what the source leaves to the platform is a parameter: whether
    \<^verbatim>\<open>defined(__linux__) || defined(__CYGWIN__)\<close> holds (the input is then mapped
    with \<^verbatim>\<open>mmap\<close> and the line ends get a carriage return), the page size, whether
    plain \<^verbatim>\<open>char\<close> is signed, and the arithmetic of \<^verbatim>\<open>double\<close>.
\<close>

subsection \<open>Platform\<close>

record 'f platform =
  linux :: bool
  page_shift :: nat
  char_signed :: bool
  fp_of_int :: "int \<Rightarrow> 'f"
  fp_add :: "'f \<Rightarrow> 'f \<Rightarrow> 'f"
  fp_mul :: "'f \<Rightarrow> 'f \<Rightarrow> 'f"
  fp_div :: "'f \<Rightarrow> 'f \<Rightarrow> 'f"
  fp_neq :: "'f \<Rightarrow> 'f \<Rightarrow> bool"

text \<open>The size of a page of memory: a power of two, and 4096 bytes or more on the systems
  that have \<^verbatim>\<open>mmap\<close>.\<close>

definition page_size :: "'f platform \<Rightarrow> nat" where
  "page_size p = 4096 * 2 ^ page_shift p"

definition NUL :: char where
  "NUL = CHR 0x00"

definition newline :: char where
  "newline = CHR 0x0A"

definition carriage_return :: char where
  "carriage_return = CHR 0x0D"

text \<open>The line end that \<^verbatim>\<open>read_gate\<close> and \<^verbatim>\<open>to_stim\<close> write: \<^verbatim>\<open>'\r'\<close> inside
  \<^verbatim>\<open>#if defined(__linux__) || defined(__CYGWIN__)\<close>, then \<^verbatim>\<open>'\n'\<close>.\<close>

definition eol :: "'f platform \<Rightarrow> string" where
  "eol p = (if linux p then [carriage_return, newline] else [newline])"

text \<open>The byte at the start of a C string; at its end that is the NUL.\<close>

fun peek :: "string \<Rightarrow> char" where
  "peek [] = NUL"
| "peek (c # s) = c"

text \<open>The value of a \<^verbatim>\<open>char\<close> promoted to \<^verbatim>\<open>int\<close>.\<close>

definition char_val :: "'f platform \<Rightarrow> char \<Rightarrow> int" where
  "char_val p ch =
     (if char_signed p \<and> 128 \<le> (of_char ch :: int) then of_char ch - 256 else of_char ch)"

subsection \<open>Errors\<close>

text \<open>One constructor for each \<^verbatim>\<open>LOGERROR\<close> of the translation, with what its
  message prints. \<open>OutOfBounds\<close> is no message of the program: it stands for a read
  outside the input buffer, after which the C++ has no defined behaviour (the program
  may stop with a signal, or go on with whatever bytes lie there).\<close>

datatype error =
    MalformedVersion char
  | UnsupportedVersion
  | MalformedQubitRef string char
  | GateNameTooLong
  | UnknownGate string
  | OutOfBounds

subsection \<open>Primitive scanner\<close>

definition isDigit :: "'f platform \<Rightarrow> char \<Rightarrow> bool" where
  "isDigit p ch = ((char_val p ch XOR 48) \<le> 9)"

definition isSpace :: "char \<Rightarrow> bool" where
  "isSpace ch = ((9 \<le> (of_char ch :: nat) \<and> (of_char ch :: nat) \<le> 13) \<or> (of_char ch :: nat) = 32)"

text \<open>\<^verbatim>\<open>isalpha\<close> of the C library in the C locale, which the program never
  changes: the ASCII letters.\<close>

definition isalpha :: "char \<Rightarrow> bool" where
  "isalpha ch =
     ((65 \<le> (of_char ch :: nat) \<and> (of_char ch :: nat) \<le> 90) \<or>
      (97 \<le> (of_char ch :: nat) \<and> (of_char ch :: nat) \<le> 122))"

text \<open>\<^verbatim>\<open>while (isSpace(*str)) str++;\<close> The loop ends by reading a byte that is no
  white space.\<close>

fun eatWS :: "string \<Rightarrow> error + string" where
  "eatWS [] = Inl OutOfBounds"
| "eatWS (c # s) = (if isSpace c then eatWS s else Inr (c # s))"

text \<open>\<^verbatim>\<open>while (*str) if (*str++ == '\n') return;\<close>\<close>

fun eatLine :: "string \<Rightarrow> error + string" where
  "eatLine [] = Inl OutOfBounds"
| "eatLine (c # s) = (if c = NUL then Inr (c # s) else if c = newline then Inr s else eatLine s)"

text \<open>The loop of \<^verbatim>\<open>toFloat\<close>. It ends at a semicolon only: a NUL is a byte like
  any other, the body runs and \<^verbatim>\<open>*++str\<close> reads the byte after it.\<close>

fun toFloat_loop :: "'f platform \<Rightarrow> string \<Rightarrow> 'f \<Rightarrow> 'f \<Rightarrow> bool \<Rightarrow> error + ('f \<times> string)" where
  "toFloat_loop p [] n f is_point = Inl OutOfBounds"
| "toFloat_loop p (ch # str) n f is_point =
     (if ch = CHR '';'' then Inr (fp_mul p n f, ch # str)
      else
        let is_digit = isDigit p ch;
            f' = (if is_point then fp_div p f (fp_of_int p 10) else f);
            is_point' = (if is_point then True else ch = CHR ''.'');
            n' = (if is_digit
                  then fp_add p (fp_mul p n (fp_of_int p 10)) (fp_of_int p (char_val p ch - 48))
                  else n)
        in toFloat_loop p str n' f' is_point')"

definition toFloat :: "'f platform \<Rightarrow> string \<Rightarrow> error + ('f \<times> string)" where
  "toFloat p str0 =
     (case eatWS str0 of
        Inl e \<Rightarrow> Inl e
      | Inr str \<Rightarrow>
          (case str of
             [] \<Rightarrow> Inl OutOfBounds
           | ch # _ \<Rightarrow>
               if \<not> isDigit p ch then Inl (MalformedVersion ch)
               else toFloat_loop p str (fp_of_int p 0) (fp_of_int p 1) False))"

text \<open>\<^verbatim>\<open>toQubit\<close> returns the pointer behind the closing bracket and the bytes it stored
  through \<^verbatim>\<open>n\<close>. The loop over the digits ends by reading a byte that is no digit.\<close>

definition toQubit :: "'f platform \<Rightarrow> string \<Rightarrow> error + (string \<times> string)" where
  "toQubit p str0 =
     (case eatWS str0 of
        Inl e \<Rightarrow> Inl e
      | Inr str \<Rightarrow>
          (case str of
             [] \<Rightarrow> Inl OutOfBounds
           | c1 # str1 \<Rightarrow>
               if c1 \<noteq> CHR ''q'' then Inl (MalformedQubitRef ''q'' c1)
               else
                 (case str1 of
                    [] \<Rightarrow> Inl OutOfBounds
                  | c2 # str2 \<Rightarrow>
                      if c2 \<noteq> CHR ''['' then Inl (MalformedQubitRef ''['' c2)
                      else
                        (case str2 of
                           [] \<Rightarrow> Inl OutOfBounds
                         | c3 # _ \<Rightarrow>
                             if \<not> isDigit p c3 then Inl (MalformedQubitRef ''a digit'' c3)
                             else
                               (case dropWhile (isDigit p) str2 of
                                  [] \<Rightarrow> Inl OutOfBounds
                                | c4 # str4 \<Rightarrow>
                                    if c4 \<noteq> CHR '']'' then Inl (MalformedQubitRef '']'' c4)
                                    else Inr (str4, takeWhile (isDigit p) str2))))))"

text \<open>\<^verbatim>\<open>match(in, size, ref)\<close>: \<open>ref\<close> is a C string; \<open>inp\<close> is read byte by byte
  up to the first difference or the end of \<open>ref\<close>.\<close>

fun match_loop :: "string \<Rightarrow> int \<Rightarrow> string \<Rightarrow> int \<Rightarrow> error + bool" where
  "match_loop inp sz [] c = Inr (sz = c)"
| "match_loop [] sz (r # ref) c = Inl OutOfBounds"
| "match_loop (x # inp) sz (r # ref) c =
     (if r \<noteq> x then Inr False else match_loop inp sz ref (c + 1))"

definition match :: "string \<Rightarrow> int \<Rightarrow> string \<Rightarrow> error + bool" where
  "match inp sz ref = (if ref = [] then Inr False else match_loop inp sz ref 0)"

subsection \<open>Gate catalog\<close>

definition MAX_GATENAME_LEN :: nat where
  "MAX_GATENAME_LEN = 16"

definition MAX_QUBIT_DIGITS :: nat where
  "MAX_QUBIT_DIGITS = 32"

definition MAX_GATES :: nat where
  "MAX_GATES = 13"

definition GATE_QASM :: "string list" where
  "GATE_QASM =
     [''i'', ''x'', ''y'', ''z'', ''h'', ''s'', ''sdg'', ''cx'', ''cy'', ''cz'',
      ''swap'', ''iswap'', ''measure'']"

definition GATE_STIM :: "string list" where
  "GATE_STIM =
     [''I'', ''X'', ''Y'', ''Z'', ''H'', ''S'', ''S_DAG'', ''CX'', ''CY'', ''CZ'',
      ''SWAP'', ''ISWAP'', ''M'']"

text \<open>\<^verbatim>\<open>strlen\<close>: the bytes before the first NUL.\<close>

definition strlen :: "string \<Rightarrow> nat" where
  "strlen s = length (takeWhile (\<lambda>c. c \<noteq> NUL) s)"

text \<open>The inner loop of \<^verbatim>\<open>translate_gate\<close>, on two C strings: \<open>c\<close> counts the
  leading bytes of \<open>ref\<close> that \<open>inp\<close> repeats, and the loop leaves at the first
  difference or at the end of \<open>ref\<close>.\<close>

fun gate_prefix_len :: "string \<Rightarrow> string \<Rightarrow> nat \<Rightarrow> nat" where
  "gate_prefix_len [] inp c = c"
| "gate_prefix_len (r # ref) inp c =
     (if r \<noteq> peek inp then c else gate_prefix_len ref (tl inp) (Suc c))"

text \<open>The outer loop, over the entries from index \<open>i\<close> on.\<close>

fun translate_gate_from :: "string \<Rightarrow> string list \<Rightarrow> nat \<Rightarrow> nat option" where
  "translate_gate_from inp [] i = None"
| "translate_gate_from inp (ref # refs) i =
     (if strlen inp = gate_prefix_len ref inp 0 then Some i
      else translate_gate_from inp refs (Suc i))"

definition translate_gate :: "string \<Rightarrow> error + nat" where
  "translate_gate inp =
     (case translate_gate_from inp GATE_QASM 0 of
        Some i \<Rightarrow> Inr i
      | None \<Rightarrow> Inl (UnknownGate inp))"

subsection \<open>Gate statements\<close>

text \<open>The fields of \<^verbatim>\<open>Circuit\<close> that the translation reads or writes. \<open>qasm\<close> holds
  the \<^verbatim>\<open>size\<close> bytes of the file, \<open>eof\<close> what can be read at \<^verbatim>\<open>eof\<close> and behind it,
  \<open>stim\<close> the bytes stored through \<^verbatim>\<open>to\<close> so far; \<open>prev\<close> and \<open>max_qubits\<close> are C
  strings.\<close>

record circuit =
  path :: string
  max_qubits :: string
  prev :: string
  qasm :: string
  stim :: string
  eof :: string

text \<open>\<^verbatim>\<open>read_qasm\<close> on a file that can be read. Without \<^verbatim>\<open>mmap\<close> the buffer is
  \<^verbatim>\<open>calloc(size + 1)\<close> and \<^verbatim>\<open>qasm[size] = '\0'\<close>: one NUL can be read at
  \<^verbatim>\<open>eof\<close>. With \<^verbatim>\<open>mmap(NULL, size, ...)\<close> the file is mapped in whole pages: the
  bytes of the last page behind the file are NUL, and when the size of the file is a
  multiple of the page size (or zero, where the call fails and no pointer is checked)
  nothing stands at \<^verbatim>\<open>eof\<close>. The NUL bytes behind the first are left out: only the
  loop of \<^verbatim>\<open>toFloat\<close> goes past a NUL, and it runs through them all.\<close>

definition read_qasm :: "'f platform \<Rightarrow> string \<Rightarrow> string \<Rightarrow> circuit" where
  "read_qasm p file_path file_bytes =
     \<lparr>path = file_path, max_qubits = [], prev = [], qasm = file_bytes, stim = [],
      eof = (if linux p \<and> length file_bytes mod page_size p = 0 then [] else [NUL])\<rparr>"

text \<open>The first loop of \<^verbatim>\<open>read_gate\<close>: the bytes copied into \<^verbatim>\<open>gate_qasm\<close>. The
  byte is read before the length is compared.\<close>

fun gate_name :: "string \<Rightarrow> nat \<Rightarrow> error + string" where
  "gate_name [] gatename_len = Inl OutOfBounds"
| "gate_name (ch # from) gatename_len =
     (if (isalpha ch \<or> ch = CHR ''_'') \<and> gatename_len < MAX_GATENAME_LEN
      then (case gate_name from (Suc gatename_len) of
              Inl e \<Rightarrow> Inl e
            | Inr name \<Rightarrow> Inr (ch # name))
      else Inr [])"

lemma eatWS_length: "eatWS s = Inr s' \<Longrightarrow> length s' \<le> length s"
  by (induction s) (auto split: if_splits)

lemma eatWS_result: "eatWS s = Inr s' \<Longrightarrow> \<exists>ch x. s' = ch # x \<and> \<not> isSpace ch"
  by (induction s) (auto split: if_splits)

lemma eatLine_length: "eatLine s = Inr s' \<Longrightarrow> length s' \<le> length s"
  by (induction s) (auto split: if_splits)

lemma eatLine_less: "eatLine (ch # s) = Inr s' \<Longrightarrow> ch \<noteq> NUL \<Longrightarrow> length s' \<le> length s"
  using eatLine_length [of s s'] by (auto split: if_splits)

lemma toQubit_length:
  assumes "toQubit p s = Inr (s', n)"
  shows "length s' < length s"
proof -
  from assms obtain a where a: "eatWS s = Inr a"
    by (auto simp: toQubit_def split: sum.splits)
  from assms a obtain c1 c2 str2 where str: "a = c1 # c2 # str2"
    by (auto simp: toQubit_def split: list.splits if_splits)
  from assms a str obtain c4 where "dropWhile (isDigit p) str2 = c4 # s'"
    by (auto simp: toQubit_def split: list.splits if_splits)
  then have "length (c4 # s') \<le> length str2"
    using length_dropWhile_le [of "isDigit p" str2] by simp
  then have "length s' < length a"
    by (simp add: str)
  then show ?thesis
    using eatWS_length [OF a] by simp
qed

text \<open>The operand loop of \<^verbatim>\<open>read_gate\<close>, on the pointer and the output written so
  far. Its condition reads the byte under the pointer, asks \<^verbatim>\<open>match\<close>, and compares
  the pointer with \<^verbatim>\<open>eof\<close> last.\<close>

function read_inputs ::
  "'f platform \<Rightarrow> string \<Rightarrow> string \<Rightarrow> string \<Rightarrow> error + (string \<times> string)" where
  "read_inputs p eof_ptr from to =
     (case from of
        [] \<Rightarrow> Inl OutOfBounds
      | ch # from1 \<Rightarrow>
          if ch = CHR '';'' then Inr (from, to)
          else
            (case match from 2 ''->'' of
               Inl e \<Rightarrow> Inl e
             | Inr arrow \<Rightarrow>
                 if arrow \<or> \<not> length eof_ptr < length from then Inr (from, to)
                 else
                   (case toQubit p from1 of
                      Inl e \<Rightarrow> Inl e
                    | Inr (from2, n) \<Rightarrow>
                        (case eatWS from2 of
                           Inl e \<Rightarrow> Inl e
                         | Inr from3 \<Rightarrow>
                             read_inputs p eof_ptr from3
                               ((if ch = CHR '','' then to @ '' '' else to) @ n)))))"
  by pat_completeness auto
termination
proof (relation "measure (\<lambda>(p, eof_ptr, from, to). length from)")
  show "wf (measure (\<lambda>(p, eof_ptr, from, to). length from))"
    by simp
next
  fix p :: "'f platform" and eof_ptr "from" to from1 from2 n from3 :: string
    and ch :: char and arrow :: bool and x2 :: "string \<times> string"
  assume "from = ch # from1" and "toQubit p from1 = Inr x2" and "(from2, n) = x2"
    and "eatWS from2 = Inr from3"
  then have "length from2 < length from1" and "length from3 \<le> length from2"
    using toQubit_length [of p from1 from2 n] eatWS_length [of from2 from3] by simp_all
  then show "((p, eof_ptr, from3, (if ch = CHR '','' then to @ '' '' else to) @ n),
               p, eof_ptr, from, to)
      \<in> measure (\<lambda>(p, eof_ptr, from, to). length from)"
    using \<open>from = ch # from1\<close> by simp
qed

declare read_inputs.simps [simp del]

text \<open>The two lines behind the operand loop: the semicolon is skipped, or the line from
  \<^verbatim>\<open>->\<close> on.\<close>

definition end_of_statement :: "string \<Rightarrow> error + string" where
  "end_of_statement from =
     (case from of
        [] \<Rightarrow> Inl OutOfBounds
      | ch # from1 \<Rightarrow>
          if ch = CHR '';'' then Inr from1
          else
            (case match from 2 ''->'' of
               Inl e \<Rightarrow> Inl e
             | Inr arrow \<Rightarrow> if arrow then eatLine from else Inr from))"

text \<open>\<^verbatim>\<open>read_gate\<close>: the gate name, its entry in the catalog, the name or the space
  written to the output, the operands, the end of the statement, and the new
  \<^verbatim>\<open>prev\<close>. The name of the catalog is a string literal, with its NUL.\<close>

definition read_gate :: "'f platform \<Rightarrow> string \<Rightarrow> circuit \<Rightarrow> error + (string \<times> circuit)" where
  "read_gate p from0 c =
     (case eatWS from0 of
        Inl e \<Rightarrow> Inl e
      | Inr from \<Rightarrow>
          (case gate_name from 0 of
             Inl e \<Rightarrow> Inl e
           | Inr gate_qasm \<Rightarrow>
               if length gate_qasm = MAX_GATENAME_LEN then Inl GateNameTooLong
               else
                 (case translate_gate gate_qasm of
                    Inl e \<Rightarrow> Inl e
                  | Inr stim_gate_idx \<Rightarrow>
                      (let gate_stim = GATE_STIM ! stim_gate_idx;
                           gatename_len = int (length gate_stim)
                       in
                       (case match (gate_stim @ [NUL]) gatename_len (prev c) of
                          Inl e \<Rightarrow> Inl e
                        | Inr same \<Rightarrow>
                            (case read_inputs p (eof c) (drop (length gate_qasm) from)
                                    (if same then stim c @ '' ''
                                     else (if prev c \<noteq> [] then stim c @ eol p else stim c)
                                          @ gate_stim @ '' '') of
                               Inl e \<Rightarrow> Inl e
                             | Inr (from1, to) \<Rightarrow>
                                 (case end_of_statement from1 of
                                    Inl e \<Rightarrow> Inl e
                                  | Inr from2 \<Rightarrow>
                                      Inr (from2, c\<lparr>prev := gate_stim, stim := to\<rparr>))))))))"

subsection \<open>The translation session\<close>

text \<open>The body of the loop of \<^verbatim>\<open>to_stim\<close> after the white space is skipped and the
  byte under the pointer is not NUL: the five keywords in the order of the source,
  then the gate statement.\<close>

definition to_stim_step :: "'f platform \<Rightarrow> string \<Rightarrow> circuit \<Rightarrow> error + (string \<times> circuit)" where
  "to_stim_step p from c =
     (case match from 8 ''OPENQASM'' of
        Inl e \<Rightarrow> Inl e
      | Inr is_version \<Rightarrow>
          if is_version then
            (case toFloat p (drop 8 from) of
               Inl e \<Rightarrow> Inl e
             | Inr (version, from1) \<Rightarrow>
                 if fp_neq p version (fp_of_int p 2) then Inl UnsupportedVersion
                 else (case eatLine from1 of Inl e \<Rightarrow> Inl e | Inr from2 \<Rightarrow> Inr (from2, c)))
          else
            (case match from 4 ''qreg'' of
               Inl e \<Rightarrow> Inl e
             | Inr is_qreg \<Rightarrow>
                 if is_qreg then
                   (case toQubit p (drop 4 from) of
                      Inl e \<Rightarrow> Inl e
                    | Inr (from1, qubits) \<Rightarrow>
                        (case eatLine from1 of
                           Inl e \<Rightarrow> Inl e
                         | Inr from2 \<Rightarrow>
                             Inr (from2,
                                  c\<lparr>max_qubits := qubits,
                                    stim := stim c @ ''#'' @ qubits @ eol p\<rparr>)))
                 else
                   (case match from 4 ''creg'' of
                      Inl e \<Rightarrow> Inl e
                    | Inr is_creg \<Rightarrow>
                        if is_creg
                        then (case eatLine from of Inl e \<Rightarrow> Inl e | Inr from2 \<Rightarrow> Inr (from2, c))
                        else
                          (case match from 7 ''include'' of
                             Inl e \<Rightarrow> Inl e
                           | Inr is_include \<Rightarrow>
                               if is_include
                               then (case eatLine from of
                                       Inl e \<Rightarrow> Inl e
                                     | Inr from2 \<Rightarrow> Inr (from2, c))
                               else
                                 (case match from 4 ''gate'' of
                                    Inl e \<Rightarrow> Inl e
                                  | Inr is_gate \<Rightarrow>
                                      if is_gate
                                      then (case eatLine from of
                                              Inl e \<Rightarrow> Inl e
                                            | Inr from2 \<Rightarrow> Inr (from2, c))
                                      else read_gate p from c)))))"

lemma toFloat_loop_length: "toFloat_loop p s n f b = Inr (v, s') \<Longrightarrow> length s' \<le> length s"
proof (induction s arbitrary: n f b)
  case Nil
  then show ?case by simp
next
  case (Cons ch s)
  show ?case
  proof (cases "ch = CHR '';''")
    case True
    with Cons.prems show ?thesis by simp
  next
    case False
    with Cons.prems obtain n' f' b' where "toFloat_loop p s n' f' b' = Inr (v, s')"
      by (simp add: Let_def)
    from Cons.IH [OF this] show ?thesis by simp
  qed
qed

lemma toFloat_length:
  assumes "toFloat p s = Inr (v, s')"
  shows "length s' \<le> length s"
proof -
  from assms obtain a where a: "eatWS s = Inr a"
    by (auto simp: toFloat_def split: sum.splits)
  with assms have "toFloat_loop p a (fp_of_int p 0) (fp_of_int p 1) False = Inr (v, s')"
    by (auto simp: toFloat_def split: list.splits if_splits)
  then have "length s' \<le> length a"
    by (rule toFloat_loop_length)
  then show ?thesis
    using eatWS_length [OF a] by simp
qed

lemma read_inputs_Nil: "read_inputs p e [] t = Inl OutOfBounds"
  by (subst read_inputs.simps) simp

lemma read_inputs_Cons:
  "read_inputs p e (ch # s) t =
     (if ch = CHR '';'' then Inr (ch # s, t)
      else
        (case match (ch # s) 2 ''->'' of
           Inl err \<Rightarrow> Inl err
         | Inr arrow \<Rightarrow>
             if arrow \<or> \<not> length e < length (ch # s) then Inr (ch # s, t)
             else
               (case toQubit p s of
                  Inl err \<Rightarrow> Inl err
                | Inr (s2, n) \<Rightarrow>
                    (case eatWS s2 of
                       Inl err \<Rightarrow> Inl err
                     | Inr s3 \<Rightarrow>
                         read_inputs p e s3 ((if ch = CHR '','' then t @ '' '' else t) @ n)))))"
  by (subst read_inputs.simps) simp

text \<open>The operand loop moves the pointer forward, or leaves it where it is: at a
  semicolon, at \<^verbatim>\<open>->\<close>, or at \<^verbatim>\<open>eof\<close> or behind it.\<close>

lemma read_inputs_progress:
  "read_inputs p e s t = Inr (s', t') \<Longrightarrow>
   length s' < length s \<or>
   (s' = s \<and> ((\<exists>x. s = CHR '';'' # x) \<or> match s 2 ''->'' = Inr True \<or> length s \<le> length e))"
proof (induction p e s t rule: read_inputs.induct)
  case (1 p e s t)
  from "1.prems" obtain ch s1 where s: "s = ch # s1"
    by (cases s) (simp_all add: read_inputs_Nil)
  show ?case
  proof (cases "ch = CHR '';''")
    case True
    with "1.prems" show ?thesis
      by (auto simp: s read_inputs_Cons)
  next
    case False
    with "1.prems" obtain arrow where m: "match s 2 ''->'' = Inr arrow"
      by (auto simp: s read_inputs_Cons split: sum.splits)
    show ?thesis
    proof (cases "arrow \<or> \<not> length e < length s")
      case True
      with "1.prems" False m show ?thesis
        by (auto simp: s read_inputs_Cons)
    next
      case go: False
      with "1.prems" False m obtain s2 n s3 where q: "toQubit p s1 = Inr (s2, n)"
        and w: "eatWS s2 = Inr s3"
        and r: "read_inputs p e s3 ((if ch = CHR '','' then t @ '' '' else t) @ n) = Inr (s', t')"
        by (auto simp: s read_inputs_Cons split: sum.splits)
      have "length s' \<le> length s3"
        using "1.IH" [OF s False m go q refl w r] by auto
      also have "\<dots> \<le> length s2"
        by (rule eatWS_length [OF w])
      also have "\<dots> < length s1"
        by (rule toQubit_length [OF q])
      finally show ?thesis
        by (simp add: s)
    qed
  qed
qed

lemma match_first:
  assumes "match (ch # s) sz (r # ref) = Inr True"
  shows "ch = r"
  using assms by (simp add: match_def split: if_splits)

lemma end_of_statement_progress:
  assumes "end_of_statement s = Inr s'"
  shows "length s' \<le> length s"
    and "(\<exists>x. s = CHR '';'' # x) \<or> match s 2 ''->'' = Inr True \<Longrightarrow> length s' < length s"
proof -
  from assms obtain ch s1 where s: "s = ch # s1"
    by (cases s) (simp_all add: end_of_statement_def)
  show "length s' \<le> length s"
  proof (cases "ch = CHR '';''")
    case True
    with assms show ?thesis
      by (simp add: s end_of_statement_def)
  next
    case False
    with assms obtain arrow where m: "match s 2 ''->'' = Inr arrow"
      by (auto simp: s end_of_statement_def split: sum.splits)
    show ?thesis
    proof (cases arrow)
      case True
      with assms False m have "eatLine s = Inr s'"
        by (simp add: s end_of_statement_def)
      then show ?thesis
        by (rule eatLine_length)
    next
      case False
      with assms \<open>ch \<noteq> CHR '';''\<close> m show ?thesis
        by (simp add: s end_of_statement_def)
    qed
  qed
  show "length s' < length s" if "(\<exists>x. s = CHR '';'' # x) \<or> match s 2 ''->'' = Inr True"
  proof (cases "ch = CHR '';''")
    case True
    with assms show ?thesis
      by (simp add: s end_of_statement_def)
  next
    case False
    with that have m: "match (ch # s1) 2 ''->'' = Inr True"
      by (simp add: s)
    then have "ch = CHR ''-''"
      using match_first [of ch s1 2 "CHR ''-''" "''>''"] by simp
    then have "ch \<noteq> NUL"
      by (simp add: NUL_def)
    moreover from assms False m have "eatLine (ch # s1) = Inr s'"
      by (simp add: s end_of_statement_def)
    ultimately have "length s' \<le> length s1"
      by (intro eatLine_less)
    then show ?thesis
      by (simp add: s)
  qed
qed

lemma read_gate_progress:
  assumes ok: "read_gate p s c = Inr (s', c')"
  shows "length s' < length s \<or> length s' \<le> length (eof c)"
proof -
  from ok obtain a where a: "eatWS s = Inr a"
    by (auto simp: read_gate_def split: sum.splits)
  from ok a obtain nm where nm: "gate_name a 0 = Inr nm"
    by (auto simp: read_gate_def split: sum.splits)
  define s1 where "s1 = drop (length nm) a"
  from ok a nm obtain t s2 t2 where
    r: "read_inputs p (eof c) s1 t = Inr (s2, t2)" and e: "end_of_statement s2 = Inr s'"
    by (auto simp: read_gate_def Let_def s1_def split: if_splits sum.splits)
  have le: "length s1 \<le> length s"
    using eatWS_length [OF a] by (simp add: s1_def)
  from read_inputs_progress [OF r]
  consider "length s2 < length s1"
    | "s2 = s1" "(\<exists>x. s1 = CHR '';'' # x) \<or> match s1 2 ''->'' = Inr True"
    | "s2 = s1" "length s1 \<le> length (eof c)"
    by blast
  then show ?thesis
  proof cases
    case 1
    then show ?thesis
      using end_of_statement_progress(1) [OF e] le by simp
  next
    case 2
    then show ?thesis
      using end_of_statement_progress(2) [OF e] le by simp
  next
    case 3
    then show ?thesis
      using end_of_statement_progress(1) [OF e] by simp
  qed
qed

lemma match_length:
  assumes "match s sz ref = Inr True"
  shows "s \<noteq> []"
  using assms by (cases s; cases ref) (simp_all add: match_def)

lemma to_stim_step_progress:
  assumes ok: "to_stim_step p (ch # x) c = Inr (s', c')" and nul: "ch \<noteq> NUL"
  shows "length s' < length (ch # x) \<or> length s' \<le> length (eof c)"
proof -
  let ?s = "ch # x"
  have line: "length s2 < length ?s" if "eatLine ?s = Inr s2" for s2
    using eatLine_less [OF that nul] by simp
  from ok obtain m1 where m1: "match ?s 8 ''OPENQASM'' = Inr m1"
    by (auto simp: to_stim_step_def split: sum.splits)
  show ?thesis
  proof (cases m1)
    case True
    with ok m1 obtain v s1 where f: "toFloat p (drop 8 ?s) = Inr (v, s1)"
      and e: "eatLine s1 = Inr s'"
      by (auto simp: to_stim_step_def split: sum.splits if_splits)
    have "length s' \<le> length s1"
      by (rule eatLine_length [OF e])
    also have "\<dots> \<le> length (drop 8 ?s)"
      by (rule toFloat_length [OF f])
    also have "\<dots> < length ?s"
      by simp
    finally show ?thesis
      by simp
  next
    case no1: False
    with ok m1 obtain m2 where m2: "match ?s 4 ''qreg'' = Inr m2"
      by (auto simp: to_stim_step_def split: sum.splits)
    show ?thesis
    proof (cases m2)
      case True
      with ok m1 no1 m2 obtain n s1 where q: "toQubit p (drop 4 ?s) = Inr (s1, n)"
        and e: "eatLine s1 = Inr s'"
        by (auto simp: to_stim_step_def split: sum.splits)
      have "length s' \<le> length s1"
        by (rule eatLine_length [OF e])
      also have "\<dots> < length (drop 4 ?s)"
        by (rule toQubit_length [OF q])
      also have "\<dots> \<le> length ?s"
        by simp
      finally show ?thesis
        by simp
    next
      case no2: False
      with ok m1 no1 m2 obtain m3 where m3: "match ?s 4 ''creg'' = Inr m3"
        by (auto simp: to_stim_step_def split: sum.splits)
      show ?thesis
      proof (cases m3)
        case True
        with ok m1 no1 m2 no2 m3 have "eatLine ?s = Inr s'"
          by (auto simp: to_stim_step_def split: sum.splits)
        then show ?thesis
          using line by simp
      next
        case no3: False
        with ok m1 no1 m2 no2 m3 obtain m4 where m4: "match ?s 7 ''include'' = Inr m4"
          by (auto simp: to_stim_step_def split: sum.splits)
        show ?thesis
        proof (cases m4)
          case True
          with ok m1 no1 m2 no2 m3 no3 m4 have "eatLine ?s = Inr s'"
            by (auto simp: to_stim_step_def split: sum.splits)
          then show ?thesis
            using line by simp
        next
          case no4: False
          with ok m1 no1 m2 no2 m3 no3 m4 obtain m5 where m5: "match ?s 4 ''gate'' = Inr m5"
            by (auto simp: to_stim_step_def split: sum.splits)
          show ?thesis
          proof (cases m5)
            case True
            with ok m1 no1 m2 no2 m3 no3 m4 no4 m5 have "eatLine ?s = Inr s'"
              by (auto simp: to_stim_step_def split: sum.splits)
            then show ?thesis
              using line by simp
          next
            case False
            with ok m1 no1 m2 no2 m3 no3 m4 no4 m5 have "read_gate p ?s c = Inr (s', c')"
              by (simp add: to_stim_step_def)
            then show ?thesis
              by (rule read_gate_progress)
          qed
        qed
      qed
    qed
  qed
qed

text \<open>The loop of \<^verbatim>\<open>to_stim\<close>: \<^verbatim>\<open>while (from < eof)\<close>, the white space, the
  \<^verbatim>\<open>break\<close> at a NUL, the step.\<close>

function to_stim_loop :: "'f platform \<Rightarrow> string \<Rightarrow> circuit \<Rightarrow> error + circuit" where
  "to_stim_loop p from c =
     (if \<not> length (eof c) < length from then Inr c
      else
        (case eatWS from of
           Inl e \<Rightarrow> Inl e
         | Inr from1 \<Rightarrow>
             (case from1 of
                [] \<Rightarrow> Inl OutOfBounds
              | ch # _ \<Rightarrow>
                  if ch = NUL then Inr c
                  else
                    (case to_stim_step p from1 c of
                       Inl e \<Rightarrow> Inl e
                     | Inr (from2, c') \<Rightarrow> to_stim_loop p from2 c'))))"
  by pat_completeness auto
termination
proof (relation "measure (\<lambda>(p, from, c). length from)")
  show "wf (measure (\<lambda>(p, from, c). length from))"
    by simp
next
  fix p :: "'f platform" and "from" from1 from2 x :: string and c c' :: circuit
    and ch :: char and x2 :: "string \<times> circuit"
  assume inside: "\<not> \<not> length (eof c) < length from" and ws: "eatWS from = Inr from1"
    and from1: "from1 = ch # x" and nul: "ch \<noteq> NUL"
    and step: "to_stim_step p from1 c = Inr x2" and x2: "(from2, c') = x2"
  have "length from2 < length from1 \<or> length from2 \<le> length (eof c)"
    using to_stim_step_progress [of p ch x c from2 c'] step x2 nul from1 by simp
  moreover have "length from1 \<le> length from"
    by (rule eatWS_length [OF ws])
  ultimately show "((p, from2, c'), p, from, c) \<in> measure (\<lambda>(p, from, c). length from)"
    using inside by auto
qed

declare to_stim_loop.simps [simp del]

text \<open>\<^verbatim>\<open>path.find_last_of(".")\<close>: the last index that holds the byte, if one does.\<close>

definition find_last_of :: "string \<Rightarrow> char \<Rightarrow> nat option" where
  "find_last_of s ch =
     (case filter (\<lambda>i. s ! i = ch) (rev [0..<length s]) of
        [] \<Rightarrow> None
      | i # _ \<Rightarrow> Some i)"

text \<open>\<^verbatim>\<open>path.substr(0, lastidx) + ".stim"\<close>; without a dot \<^verbatim>\<open>lastidx\<close> is
  \<^verbatim>\<open>npos\<close> and \<^verbatim>\<open>substr\<close> keeps the whole path.\<close>

definition stim_file_path :: "string \<Rightarrow> string" where
  "stim_file_path file_path =
     (case find_last_of file_path (CHR ''.'') of
        None \<Rightarrow> file_path
      | Some lastidx \<Rightarrow> take lastidx file_path) @ ''.stim''"

text \<open>What a run of \<^verbatim>\<open>to_stim\<close> that reaches \<^verbatim>\<open>fwrite\<close> leaves: the file it
  writes, the \<^verbatim>\<open>stim_size\<close> bytes it writes there, and \<^verbatim>\<open>max_qubits\<close>, which it
  logs as the number of qubits found. Opening the file is taken to succeed.\<close>

record stim_output =
  written_to :: string
  stim_bytes :: string
  qubits :: string

text \<open>\<^verbatim>\<open>to_stim\<close>: the loop from the start of the buffer, the last line end, the
  file. \<open>Inl\<close> is an exit inside the loop, before the file is opened.\<close>

definition to_stim :: "'f platform \<Rightarrow> circuit \<Rightarrow> error + stim_output" where
  "to_stim p c =
     (case to_stim_loop p (qasm c @ eof c) c of
        Inl e \<Rightarrow> Inl e
      | Inr c' \<Rightarrow>
          Inr \<lparr>written_to = stim_file_path (path c'),
               stim_bytes = stim c' @ eol p,
               qubits = max_qubits c'\<rparr>)"

section \<open>Properties\<close>

subsection \<open>The gate catalog\<close>

lemma strlen_no_NUL: "NUL \<notin> set s \<Longrightarrow> strlen s = length s"
  by (induction s) (auto simp: strlen_def)

lemma gate_prefix_len_iff:
  "NUL \<notin> set ref \<Longrightarrow> (length inp + c = gate_prefix_len ref inp c) \<longleftrightarrow> prefix inp ref"
proof (induction ref arbitrary: inp c)
  case Nil
  then show ?case by simp
next
  case (Cons r ref)
  show ?case
  proof (cases inp)
    case Nil
    with Cons.prems show ?thesis by auto
  next
    case (Cons x xs)
    with Cons.prems Cons.IH [of xs "Suc c"] show ?thesis by auto
  qed
qed

text \<open>The lookup finds an entry as soon as the name is a prefix of one, and only then.\<close>

lemma translate_gate_from_None:
  assumes "NUL \<notin> set inp" and "\<forall>ref \<in> set refs. NUL \<notin> set ref"
  shows "translate_gate_from inp refs i = None \<longleftrightarrow> (\<forall>ref \<in> set refs. \<not> prefix inp ref)"
  using assms(2)
proof (induction refs arbitrary: i)
  case Nil
  then show ?case by simp
next
  case (Cons ref refs)
  then have "NUL \<notin> set ref"
    by simp
  then have "(strlen inp = gate_prefix_len ref inp 0) \<longleftrightarrow> prefix inp ref"
    using gate_prefix_len_iff [of ref inp 0] assms(1) by (simp add: strlen_no_NUL)
  with Cons show ?case
    by simp
qed

lemma GATE_QASM_no_NUL: "\<forall>ref \<in> set GATE_QASM. NUL \<notin> set ref"
  by (simp add: GATE_QASM_def NUL_def)

lemma translate_gate_unknown_iff:
  assumes "NUL \<notin> set inp"
  shows "translate_gate inp = Inl (UnknownGate inp) \<longleftrightarrow> (\<forall>ref \<in> set GATE_QASM. \<not> prefix inp ref)"
  using translate_gate_from_None [OF assms GATE_QASM_no_NUL, of 0]
  by (auto simp: translate_gate_def split: option.splits)

text \<open>
  Claim C1. The claim: the lookup of the gate catalog succeeds only for a name that is,
  byte for byte and in its length, one of the 13 QASM names; a strict prefix of an entry
  (\<open>m\<close>, \<open>sw\<close>, \<open>isw\<close>) is an unknown gate. The code: the inner loop of
  \<^verbatim>\<open>translate_gate\<close> leaves at the first difference, and the test after it compares the
  count with the length of the name only, so the NUL that ends a shorter name ends the
  loop with the count the test accepts. \<open>m\<close> is entry 12 (\<open>measure\<close>), \<open>sw\<close> is entry 10
  (\<open>swap\<close>), \<open>isw\<close> is entry 11 (\<open>iswap\<close>), and the empty name is entry 0 (\<open>i\<close>).
\<close>

theorem translate_gate_accepts_strict_prefix:
  "translate_gate ''m'' = Inr 12 \<and> translate_gate ''sw'' = Inr 10 \<and>
   translate_gate ''isw'' = Inr 11 \<and> translate_gate [] = Inr 0"
  by (simp add: translate_gate_def GATE_QASM_def strlen_def NUL_def)

subsection \<open>Running the loops on a given input\<close>

lemma to_stim_loop_end: "length from \<le> length (eof c) \<Longrightarrow> to_stim_loop p from c = Inr c"
  by (subst to_stim_loop.simps) simp

lemma to_stim_loop_go:
  "length (eof c) < length from \<Longrightarrow>
   to_stim_loop p from c =
     (case eatWS from of
        Inl e \<Rightarrow> Inl e
      | Inr from1 \<Rightarrow>
          (case from1 of
             [] \<Rightarrow> Inl OutOfBounds
           | ch # x \<Rightarrow>
               if ch = NUL then Inr c
               else
                 (case to_stim_step p from1 c of
                    Inl e \<Rightarrow> Inl e
                  | Inr (from2, c') \<Rightarrow> to_stim_loop p from2 c')))"
  by (subst to_stim_loop.simps) simp

text \<open>A file of fewer bytes than the smallest page does not end at the end of a page,
  unless it is empty.\<close>

lemma page_size_ge: "4096 \<le> page_size p"
  by (simp add: page_size_def)

lemma small_file: "0 < n \<Longrightarrow> n < 4096 \<Longrightarrow> n mod page_size p \<noteq> 0"
  using page_size_ge [of p] by simp

lemmas run_rules =
  read_inputs_Nil read_inputs_Cons to_stim_loop_end to_stim_loop_go small_file

lemmas run_defs =
  to_stim_def read_qasm_def to_stim_step_def read_gate_def end_of_statement_def toQubit_def
  match_def translate_gate_def GATE_QASM_def GATE_STIM_def strlen_def MAX_GATENAME_LEN_def
  isSpace_def isalpha_def isDigit_def char_val_def NUL_def newline_def Let_def

subsection \<open>The name written last and directive lines\<close>

text \<open>
  Claim C2. The claim: a directive line between two gate statements resets the name
  written last, so that the second of two statements with one name starts a line of
  its own, name and all. The code: no branch of \<^verbatim>\<open>to_stim\<close> for a directive writes
  \<^verbatim>\<open>prev\<close>; only \<^verbatim>\<open>read_gate\<close> does. After \<^verbatim>\<open>x q[0];\<close>, a \<^verbatim>\<open>qreg\<close> line and
  \<^verbatim>\<open>x q[1];\<close> the output is the first operand, the header stuck to it, and a line
  that holds the second operand with no name; with a \<^verbatim>\<open>creg\<close> line in between the
  two operands share one line.
\<close>

theorem directive_does_not_reset_prev:
  "to_stim p (read_qasm p f ''x q[0];\<newline>qreg q[2];\<newline>x q[1];'') =
     Inr \<lparr>written_to = stim_file_path f,
          stim_bytes = ''X 0#2'' @ eol p @ '' 1'' @ eol p,
          qubits = ''2''\<rparr> \<and>
   to_stim p (read_qasm p f ''x q[0];\<newline>creg c[2];\<newline>x q[1];'') =
     Inr \<lparr>written_to = stim_file_path f,
          stim_bytes = ''X 0 1'' @ eol p,
          qubits = []\<rparr>"
  by (simp add: run_rules run_defs)

subsection \<open>The size of the output\<close>

text \<open>\<^verbatim>\<open>stim = (char*) calloc(size + 1, sizeof(char))\<close>: the bytes the output buffer
  holds.\<close>

definition stim_capacity :: "circuit \<Rightarrow> nat" where
  "stim_capacity c = length (qasm c) + 1"

text \<open>
  Claim C3. The claim: a translation without error never writes more bytes than the
  input has, so the output buffer is never overrun. The code: the input \<^verbatim>\<open>sdg;\<close> has
  4 bytes and its buffer 5; the translation ends without error and has stored the 6
  bytes of the name and the space and then the line end, 7 bytes or 8.
\<close>

theorem output_longer_than_input:
  "to_stim p (read_qasm p f ''sdg;'') =
     Inr \<lparr>written_to = stim_file_path f, stim_bytes = ''S_DAG '' @ eol p, qubits = []\<rparr> \<and>
   length (qasm (read_qasm p f ''sdg;'')) = 4 \<and>
   stim_capacity (read_qasm p f ''sdg;'') = 5 \<and>
   7 \<le> length (''S_DAG '' @ eol p)"
  by (simp add: run_rules run_defs stim_capacity_def eol_def)

subsection \<open>Unknown gates\<close>

text \<open>A name that is a prefix of no entry of the catalog ends the translation with
  \<open>UnknownGate\<close>, whatever was written before; no file is written then, since
  \<^verbatim>\<open>to_stim\<close> opens the file after the loop.\<close>

lemma to_stim_unknown_gate_example:
  "to_stim p (read_qasm p f ''h q[0];\<newline>t q[0];'') = Inl (UnknownGate ''t'')"
  by (simp add: run_rules run_defs)

text \<open>
  Claim C6. The claim: a statement whose name is not in the gate catalog ends the
  translation with \<open>UnknownGate\<close>, and no output is written. The code: \<open>sw\<close> is none of
  the 13 names, and \<^verbatim>\<open>sw q[0];\<close> is translated as \<open>swap\<close> and written. The cause is
  the lookup of claim C1.
\<close>

theorem absent_name_is_translated:
  "to_stim p (read_qasm p f ''sw q[0];'') =
     Inr \<lparr>written_to = stim_file_path f, stim_bytes = ''SWAP 0'' @ eol p, qubits = []\<rparr> \<and>
   ''sw'' \<notin> set GATE_QASM"
  by (simp add: run_rules run_defs)

subsection \<open>Qubit references\<close>

text \<open>
  Claim C8. The claim: \<^verbatim>\<open>toQubit\<close> succeeds exactly on white space, \<open>q\<close>, \<open>[\<close>, one
  decimal digit or more, \<open>]\<close>. The code: \<^verbatim>\<open>isDigit\<close> is \<^verbatim>\<open>(ch ^ 48) <= 9\<close> on the
  promoted \<^verbatim>\<open>char\<close>; where \<^verbatim>\<open>char\<close> is signed a byte from 0x80 on is negative, stays
  negative under the exclusive or, and passes for a digit. The byte 0xFF between the
  brackets is accepted and copied.
\<close>

theorem toQubit_accepts_high_byte:
  "toQubit (p\<lparr>char_signed := True\<rparr>) [CHR ''q'', CHR ''['', CHR 0xFF, CHR '']''] =
     Inr ([], [CHR 0xFF]) \<and>
   CHR 0xFF \<notin> set ''0123456789''"
  by (simp add: run_defs)

subsection \<open>Directive dispatch\<close>

text \<open>
  Claim C9. The dispatch of \<^verbatim>\<open>to_stim\<close> looks only at the bytes of the keyword under
  the pointer, not at the identifier that stands there. Whatever follows \<open>gate\<close>,
  \<open>creg\<close> or \<open>include\<close>, the step skips the line and leaves the circuit as it was;
  whatever follows \<open>qreg\<close> or \<open>OPENQASM\<close>, the step is the directive's (a qubit
  reference, a version number), and its result is never \<open>UnknownGate\<close>. So
  \<^verbatim>\<open>gates q[0];\<close> and \<^verbatim>\<open>gatefoo q[0];\<close> are skipped as \<open>gate\<close> lines: the only
  output is the last line end, and the statement after them is translated as if they
  were not there.
\<close>

theorem keyword_prefix_dispatch:
  "to_stim_step p (''gate'' @ s) c =
     (case eatLine (''gate'' @ s) of Inl e \<Rightarrow> Inl e | Inr s' \<Rightarrow> Inr (s', c)) \<and>
   to_stim_step p (''creg'' @ s) c =
     (case eatLine (''creg'' @ s) of Inl e \<Rightarrow> Inl e | Inr s' \<Rightarrow> Inr (s', c)) \<and>
   to_stim_step p (''include'' @ s) c =
     (case eatLine (''include'' @ s) of Inl e \<Rightarrow> Inl e | Inr s' \<Rightarrow> Inr (s', c)) \<and>
   to_stim_step p (''qreg'' @ s) c =
     (case toQubit p s of
        Inl e \<Rightarrow> Inl e
      | Inr (s', n) \<Rightarrow>
          (case eatLine s' of
             Inl e \<Rightarrow> Inl e
           | Inr s'' \<Rightarrow> Inr (s'', c\<lparr>max_qubits := n, stim := stim c @ ''#'' @ n @ eol p\<rparr>))) \<and>
   to_stim_step p (''qreg'' @ s) c \<noteq> Inl (UnknownGate m) \<and>
   to_stim_step p (''OPENQASM'' @ s) c =
     (case toFloat p s of
        Inl e \<Rightarrow> Inl e
      | Inr (version, s') \<Rightarrow>
          if fp_neq p version (fp_of_int p 2) then Inl UnsupportedVersion
          else (case eatLine s' of Inl e \<Rightarrow> Inl e | Inr s'' \<Rightarrow> Inr (s'', c))) \<and>
   to_stim_step p (''OPENQASM'' @ s) c \<noteq> Inl (UnknownGate m) \<and>
   to_stim p (read_qasm p f ''gates q[0];'') =
     Inr \<lparr>written_to = stim_file_path f, stim_bytes = eol p, qubits = []\<rparr> \<and>
   to_stim p (read_qasm p f ''gatefoo q[0];\<newline>x q[1];'') =
     Inr \<lparr>written_to = stim_file_path f, stim_bytes = ''X 1'' @ eol p, qubits = []\<rparr>"
proof -
  have skip: "to_stim_step p (''gate'' @ s) c =
      (case eatLine (''gate'' @ s) of Inl e \<Rightarrow> Inl e | Inr s' \<Rightarrow> Inr (s', c))"
    "to_stim_step p (''creg'' @ s) c =
      (case eatLine (''creg'' @ s) of Inl e \<Rightarrow> Inl e | Inr s' \<Rightarrow> Inr (s', c))"
    "to_stim_step p (''include'' @ s) c =
      (case eatLine (''include'' @ s) of Inl e \<Rightarrow> Inl e | Inr s' \<Rightarrow> Inr (s', c))"
    by (simp_all add: to_stim_step_def match_def)
  have qreg: "to_stim_step p (''qreg'' @ s) c =
     (case toQubit p s of
        Inl e \<Rightarrow> Inl e
      | Inr (s', n) \<Rightarrow>
          (case eatLine s' of
             Inl e \<Rightarrow> Inl e
           | Inr s'' \<Rightarrow> Inr (s'', c\<lparr>max_qubits := n, stim := stim c @ ''#'' @ n @ eol p\<rparr>)))"
    by (simp add: to_stim_step_def match_def)
  have version: "to_stim_step p (''OPENQASM'' @ s) c =
     (case toFloat p s of
        Inl e \<Rightarrow> Inl e
      | Inr (version, s') \<Rightarrow>
          if fp_neq p version (fp_of_int p 2) then Inl UnsupportedVersion
          else (case eatLine s' of Inl e \<Rightarrow> Inl e | Inr s'' \<Rightarrow> Inr (s'', c)))"
    by (simp add: to_stim_step_def match_def)
  have ws: "eatWS t \<noteq> Inl (UnknownGate m)" for t
    by (induction t) simp_all
  have line: "eatLine t \<noteq> Inl (UnknownGate m)" for t
    by (induction t) simp_all
  have qubit: "toQubit p s \<noteq> Inl (UnknownGate m)"
    using ws [of s] by (auto simp: toQubit_def split: sum.splits list.splits)
  have float_loop: "toFloat_loop p t n g b \<noteq> Inl (UnknownGate m)" for t n g b
    by (induction t arbitrary: n g b) (simp_all add: Let_def)
  have float: "toFloat p s \<noteq> Inl (UnknownGate m)"
    using ws [of s] by (auto simp: toFloat_def float_loop split: sum.splits list.splits)
  have no_gate: "to_stim_step p (''qreg'' @ s) c \<noteq> Inl (UnknownGate m)"
    "to_stim_step p (''OPENQASM'' @ s) c \<noteq> Inl (UnknownGate m)"
    using qubit float line unfolding qreg version by (auto split: sum.splits)
  have examples: "to_stim p (read_qasm p f ''gates q[0];'') =
       Inr \<lparr>written_to = stim_file_path f, stim_bytes = eol p, qubits = []\<rparr>"
    "to_stim p (read_qasm p f ''gatefoo q[0];\<newline>x q[1];'') =
       Inr \<lparr>written_to = stim_file_path f, stim_bytes = ''X 1'' @ eol p, qubits = []\<rparr>"
    by (simp_all add: run_rules run_defs)
  show ?thesis
    using skip qreg version no_gate examples by blast
qed

subsection \<open>Statements as they stand in a file\<close>

text \<open>A qubit index as OpenQASM writes it: one decimal digit or more.\<close>

definition decimal :: "string \<Rightarrow> bool" where
  "decimal d = (d \<noteq> [] \<and> list_all (\<lambda>ch. ch \<in> set ''0123456789'') d)"

text \<open>A gate statement on one qubit: \<^verbatim>\<open>x q[3];\<close>\<close>

definition gate_stmt :: "string \<Rightarrow> string \<Rightarrow> string" where
  "gate_stmt name d = name @ '' q['' @ d @ ''];''"

text \<open>Statements with one name, each on a line of its own; no line feed behind the
  last.\<close>

fun gate_run :: "string \<Rightarrow> string list \<Rightarrow> string" where
  "gate_run name [] = []"
| "gate_run name [d] = gate_stmt name d"
| "gate_run name (d # ds) = gate_stmt name d @ [newline] @ gate_run name ds"

text \<open>The lines of a text: each is ended by a line feed, which is not part of it; bytes
  behind the last line feed are a last line.\<close>

fun lines_from :: "string \<Rightarrow> string \<Rightarrow> string list" where
  "lines_from line [] = (if line = [] then [] else [line])"
| "lines_from line (ch # s) =
     (if ch = newline then line # lines_from [] s else lines_from (line @ [ch]) s)"

definition text_lines :: "string \<Rightarrow> string list" where
  "text_lines s = lines_from [] s"

lemma lines_from_line:
  "newline \<notin> set l \<Longrightarrow> lines_from line (l @ newline # s) = (line @ l) # lines_from [] s"
  by (induction l arbitrary: line) auto

lemma text_lines_line:
  "newline \<notin> set l \<Longrightarrow> text_lines (l @ newline # s) = l # text_lines s"
  by (simp add: text_lines_def lines_from_line)

lemma text_lines_Nil: "text_lines [] = []"
  by (simp add: text_lines_def)

lemma isDigit_decimal: "ch \<in> set ''0123456789'' \<Longrightarrow> isDigit p ch"
  by (auto simp: isDigit_def char_val_def)

lemma decimal_digits: "decimal d \<Longrightarrow> ch \<in> set d \<Longrightarrow> isDigit p ch"
  using isDigit_decimal [of ch p] by (simp add: decimal_def list_all_iff)

lemma decimal_no_newline:
  assumes "decimal d"
  shows "newline \<notin> set d"
proof
  assume "newline \<in> set d"
  with assms have "newline \<in> set ''0123456789''"
    unfolding decimal_def list_all_iff by blast
  then show False
    by (simp add: newline_def)
qed

lemma toQubit_decimal:
  assumes "decimal d"
  shows "toQubit p (CHR ''q'' # CHR ''['' # d @ CHR '']'' # rest) = Inr (rest, d)"
proof -
  from assms obtain x xs where d: "d = x # xs"
    by (cases d) (auto simp: decimal_def)
  have first: "isDigit p x"
    using decimal_digits [OF assms, of x p] by (simp add: d)
  have stop: "\<not> isDigit p (CHR '']'')"
    by (simp add: isDigit_def char_val_def)
  have "takeWhile (isDigit p) (d @ CHR '']'' # rest) = d @ takeWhile (isDigit p) (CHR '']'' # rest)"
    using decimal_digits [OF assms] by (intro takeWhile_append2)
  then have tw: "takeWhile (isDigit p) (d @ CHR '']'' # rest) = d"
    using stop by simp
  have "dropWhile (isDigit p) (d @ CHR '']'' # rest) = dropWhile (isDigit p) (CHR '']'' # rest)"
    using decimal_digits [OF assms] by (intro dropWhile_append2)
  then have dw: "dropWhile (isDigit p) (d @ CHR '']'' # rest) = CHR '']'' # rest"
    using stop by simp
  have sp: "\<not> isSpace (CHR ''q'')"
    by (simp add: isSpace_def)
  have "toQubit p (CHR ''q'' # CHR ''['' # d @ CHR '']'' # rest) =
      (case d @ CHR '']'' # rest of
         [] \<Rightarrow> Inl OutOfBounds
       | c3 # x \<Rightarrow>
           if \<not> isDigit p c3 then Inl (MalformedQubitRef ''a digit'' c3)
           else
             (case dropWhile (isDigit p) (d @ CHR '']'' # rest) of
                [] \<Rightarrow> Inl OutOfBounds
              | c4 # str4 \<Rightarrow>
                  if c4 \<noteq> CHR '']'' then Inl (MalformedQubitRef '']'' c4)
                  else Inr (str4, takeWhile (isDigit p) (d @ CHR '']'' # rest))))"
    by (simp add: toQubit_def sp)
  also have "\<dots> = Inr (rest, d)"
    unfolding tw dw using first by (simp add: d)
  finally show ?thesis .
qed

subsection \<open>Run compaction\<close>

text \<open>\<^verbatim>\<open>match(gate_stim, gatename_len, prev)\<close> asks whether \<^verbatim>\<open>prev\<close> is the name.\<close>

lemma match_loop_same:
  "NUL \<notin> set ref \<Longrightarrow> match_loop (g @ [NUL]) (c + int (length g)) ref c = Inr (ref = g)"
proof (induction ref arbitrary: g c)
  case Nil
  then show ?case by auto
next
  case (Cons r ref)
  show ?case
  proof (cases g)
    case Nil
    with Cons.prems show ?thesis by auto
  next
    case (Cons x xs)
    with Cons.prems Cons.IH [of xs "c + 1"] show ?thesis
      by (auto simp: ac_simps)
  qed
qed

lemma match_same:
  "NUL \<notin> set ref \<Longrightarrow> match (g @ [NUL]) (int (length g)) ref = Inr (ref \<noteq> [] \<and> ref = g)"
  using match_loop_same [of ref g 0] by (simp add: match_def)

lemma gate_index_cases:
  assumes "i < MAX_GATES"
  obtains "i = 0" | "i = 1" | "i = 2" | "i = 3" | "i = 4" | "i = 5" | "i = 6" | "i = 7"
    | "i = 8" | "i = 9" | "i = 10" | "i = 11" | "i = 12"
proof -
  from assms have "i = 0 \<or> i = 1 \<or> i = 2 \<or> i = 3 \<or> i = 4 \<or> i = 5 \<or> i = 6 \<or> i = 7
      \<or> i = 8 \<or> i = 9 \<or> i = 10 \<or> i = 11 \<or> i = 12"
    unfolding MAX_GATES_def by arith
  then show thesis
    using that by blast
qed

lemma GATE_STIM_distinct: "distinct GATE_STIM" and GATE_STIM_length: "length GATE_STIM = MAX_GATES"
  by (simp_all add: GATE_STIM_def MAX_GATES_def)

lemma GATE_STIM_entries: "\<forall>g \<in> set GATE_STIM. g \<noteq> [] \<and> newline \<notin> set g \<and> NUL \<notin> set g"
  by (simp add: GATE_STIM_def newline_def NUL_def)

lemma GATE_STIM_nth:
  assumes "i < MAX_GATES"
  shows "GATE_STIM ! i \<noteq> []" and "newline \<notin> set (GATE_STIM ! i)" and "NUL \<notin> set (GATE_STIM ! i)"
proof -
  have "GATE_STIM ! i \<in> set GATE_STIM"
    using assms by (simp add: GATE_STIM_length)
  then show "GATE_STIM ! i \<noteq> []" and "newline \<notin> set (GATE_STIM ! i)"
    and "NUL \<notin> set (GATE_STIM ! i)"
    using GATE_STIM_entries by blast+
qed

text \<open>One step of the loop on a gate statement of the catalog: the pointer moves behind
  the semicolon, the name is the new \<^verbatim>\<open>prev\<close>, and the output grows by a space when
  the name was written last, by the name (after a line end, unless nothing was written
  last) and a space otherwise, and then by the digits. Nothing behind the semicolon is
  read.\<close>

lemma to_stim_step_gate:
  assumes "i < MAX_GATES" and "decimal d" and "NUL \<notin> set (prev c)"
    and "length (eof c) \<le> length rest"
  shows "to_stim_step p (gate_stmt (GATE_QASM ! i) d @ rest) c =
           Inr (rest,
                c\<lparr>prev := GATE_STIM ! i,
                  stim := stim c @
                    (if prev c = GATE_STIM ! i then '' ''
                     else (if prev c \<noteq> [] then eol p else []) @ GATE_STIM ! i @ '' '') @ d\<rparr>)"
proof -
  define t where "t = CHR '' '' # CHR ''q'' # CHR ''['' # d @ CHR '']'' # CHR '';'' # rest"
  define s where "s = GATE_QASM ! i @ t"
  have s: "gate_stmt (GATE_QASM ! i) d @ rest = s"
    by (simp add: gate_stmt_def s_def t_def)
  have kw: "match s 8 ''OPENQASM'' = Inr False" "match s 4 ''qreg'' = Inr False"
    "match s 4 ''creg'' = Inr False" "match s 7 ''include'' = Inr False"
    "match s 4 ''gate'' = Inr False"
    using assms(1)
    by (cases rule: gate_index_cases; simp add: s_def t_def match_def GATE_QASM_def)+
  have ws: "eatWS s = Inr s"
    using assms(1)
    by (cases rule: gate_index_cases) (simp_all add: s_def GATE_QASM_def isSpace_def)
  have nm: "gate_name s 0 = Inr (GATE_QASM ! i)"
    using assms(1)
    by (cases rule: gate_index_cases)
      (simp_all add: s_def t_def GATE_QASM_def isalpha_def MAX_GATENAME_LEN_def)
  have len: "length (GATE_QASM ! i) \<noteq> MAX_GATENAME_LEN"
    using assms(1)
    by (cases rule: gate_index_cases) (simp_all add: GATE_QASM_def MAX_GATENAME_LEN_def)
  have tr: "translate_gate (GATE_QASM ! i) = Inr i"
    using assms(1)
    by (cases rule: gate_index_cases)
      (simp_all add: translate_gate_def GATE_QASM_def strlen_def NUL_def)
  have dr: "drop (length (GATE_QASM ! i)) s = t"
    by (simp add: s_def)
  have same: "match (GATE_STIM ! i @ [NUL]) (int (length (GATE_STIM ! i))) (prev c) =
      Inr (prev c \<noteq> [] \<and> prev c = GATE_STIM ! i)"
    using assms(3) by (rule match_same)
  have ops: "read_inputs p (eof c) t out = Inr (CHR '';'' # rest, out @ d)" for out
    using assms(4) toQubit_decimal [OF assms(2), of p "CHR '';'' # rest"]
    by (simp add: t_def read_inputs_Cons match_def isSpace_def)
  have fin: "end_of_statement (CHR '';'' # rest) = Inr rest"
    by (simp add: end_of_statement_def)
  have ne: "GATE_STIM ! i \<noteq> []"
    by (rule GATE_STIM_nth(1) [OF assms(1)])
  show ?thesis
    using len ne
    by (simp add: s to_stim_step_def read_gate_def Let_def kw ws nm tr dr same ops fin)
qed

lemma GATE_QASM_first:
  assumes "i < MAX_GATES"
  obtains ch s where "GATE_QASM ! i = ch # s" and "\<not> isSpace ch" and "ch \<noteq> NUL"
  using assms
  by (cases rule: gate_index_cases) (simp_all add: GATE_QASM_def isSpace_def NUL_def)

lemma to_stim_step_eof:
  assumes "to_stim_step p s c = Inr (s', c')"
  shows "eof c' = eof c"
proof -
  have "eof c' = eof c" if "read_gate p s c = Inr (s', c')"
    using that by (auto simp: read_gate_def Let_def split: sum.splits if_splits)
  with assms show ?thesis
    by (auto simp: to_stim_step_def split: sum.splits if_splits)
qed

lemma to_stim_loop_gate:
  assumes "i < MAX_GATES" and "decimal d" and "NUL \<notin> set (prev c)"
    and "length (eof c) \<le> length rest"
  shows "to_stim_loop p (gate_stmt (GATE_QASM ! i) d @ rest) c =
           to_stim_loop p rest
             (c\<lparr>prev := GATE_STIM ! i,
                stim := stim c @
                  (if prev c = GATE_STIM ! i then '' ''
                   else (if prev c \<noteq> [] then eol p else []) @ GATE_STIM ! i @ '' '') @ d\<rparr>)"
proof -
  from assms(1) obtain ch s where first: "GATE_QASM ! i = ch # s" "\<not> isSpace ch" "ch \<noteq> NUL"
    by (rule GATE_QASM_first)
  define stmt where "stmt = gate_stmt (GATE_QASM ! i) d @ rest"
  have shape: "stmt = ch # (s @ '' q['' @ d @ ''];'' @ rest)"
    by (simp add: stmt_def gate_stmt_def first(1))
  have "length (eof c) < length stmt"
    using assms(4) by (simp add: shape)
  then have "to_stim_loop p stmt c =
      (case to_stim_step p stmt c of Inl e \<Rightarrow> Inl e | Inr (s', c') \<Rightarrow> to_stim_loop p s' c')"
    by (subst to_stim_loop_go) (simp_all add: shape first(2,3))
  then show ?thesis
    unfolding stmt_def by (simp only: to_stim_step_gate [OF assms] sum.case prod.case)
qed

lemma to_stim_loop_space:
  assumes "isSpace ch" and "length (eof c) < length s"
  shows "to_stim_loop p (ch # s) c = to_stim_loop p s c"
proof -
  have "to_stim_loop p (ch # s) c =
      (case eatWS s of
         Inl e \<Rightarrow> Inl e
       | Inr from1 \<Rightarrow>
           (case from1 of
              [] \<Rightarrow> Inl OutOfBounds
            | ch # x \<Rightarrow>
                if ch = NUL then Inr c
                else
                  (case to_stim_step p from1 c of
                     Inl e \<Rightarrow> Inl e
                   | Inr (from2, c') \<Rightarrow> to_stim_loop p from2 c')))"
    using assms by (subst to_stim_loop_go) simp_all
  also have "\<dots> = to_stim_loop p s c"
    using assms(2) by (subst (2) to_stim_loop_go) simp_all
  finally show ?thesis .
qed

lemma gate_run_Cons:
  "ds \<noteq> [] \<Longrightarrow> gate_run name (d # ds) = gate_stmt name d @ newline # gate_run name ds"
  by (cases ds) simp_all

lemma gate_run_nonempty: "ds \<noteq> [] \<Longrightarrow> gate_run name ds \<noteq> []"
  by (induction name ds rule: gate_run.induct) (simp_all add: gate_stmt_def)

text \<open>A run of statements with one name: the name is written once, unless it was written
  last, and each statement adds a space and its digits.\<close>

lemma to_stim_loop_run:
  assumes "i < MAX_GATES" and "ds \<noteq> []" and "list_all decimal ds" and "NUL \<notin> set (prev c)"
    and "length (eof c) \<le> length rest"
  shows "to_stim_loop p (gate_run (GATE_QASM ! i) ds @ rest) c =
           to_stim_loop p rest
             (c\<lparr>prev := GATE_STIM ! i,
                stim := stim c @
                  (if prev c = GATE_STIM ! i then []
                   else (if prev c \<noteq> [] then eol p else []) @ GATE_STIM ! i) @
                  concat (map (\<lambda>d. '' '' @ d) ds)\<rparr>)"
  using assms(2,3,4,5)
proof (induction ds arbitrary: c rule: list_nonempty_induct)
  case (single d)
  then have "decimal d"
    by simp
  from to_stim_loop_gate [OF assms(1) this single(2,3), of p] show ?case
    by simp
next
  case (cons d ds)
  then have d: "decimal d" and ds: "list_all decimal ds"
    by simp_all
  define c1 where "c1 = c\<lparr>prev := GATE_STIM ! i,
      stim := stim c @
        (if prev c = GATE_STIM ! i then '' ''
         else (if prev c \<noteq> [] then eol p else []) @ GATE_STIM ! i @ '' '') @ d\<rparr>"
  have c1: "prev c1 = GATE_STIM ! i" "eof c1 = eof c"
    by (simp_all add: c1_def)
  have nul: "NUL \<notin> set (prev c1)"
    using GATE_STIM_nth(3) [OF assms(1)] by (simp add: c1)
  have more: "length (eof c) < length (gate_run (GATE_QASM ! i) ds @ rest)"
    using gate_run_nonempty [OF cons.hyps, of "GATE_QASM ! i"] cons.prems(3)
    by (cases "gate_run (GATE_QASM ! i) ds") simp_all
  have "to_stim_loop p (gate_run (GATE_QASM ! i) (d # ds) @ rest) c =
      to_stim_loop p
        (gate_stmt (GATE_QASM ! i) d @ (newline # gate_run (GATE_QASM ! i) ds @ rest)) c"
    by (simp add: gate_run_Cons [OF cons.hyps])
  also have "\<dots> = to_stim_loop p (newline # gate_run (GATE_QASM ! i) ds @ rest) c1"
    unfolding c1_def using more
    by (intro to_stim_loop_gate [OF assms(1) d cons.prems(2)]) simp
  also have "\<dots> = to_stim_loop p (gate_run (GATE_QASM ! i) ds @ rest) c1"
    using more by (intro to_stim_loop_space) (simp_all add: isSpace_def newline_def c1)
  also have "\<dots> = to_stim_loop p rest
      (c1\<lparr>prev := GATE_STIM ! i,
          stim := stim c1 @
            (if prev c1 = GATE_STIM ! i then []
             else (if prev c1 \<noteq> [] then eol p else []) @ GATE_STIM ! i) @
            concat (map (\<lambda>d. '' '' @ d) ds)\<rparr>)"
    using cons.prems(3) by (intro cons.IH [OF ds nul]) (simp add: c1)
  also have "c1\<lparr>prev := GATE_STIM ! i,
          stim := stim c1 @
            (if prev c1 = GATE_STIM ! i then []
             else (if prev c1 \<noteq> [] then eol p else []) @ GATE_STIM ! i) @
            concat (map (\<lambda>d. '' '' @ d) ds)\<rparr> =
      c\<lparr>prev := GATE_STIM ! i,
        stim := stim c @
          (if prev c = GATE_STIM ! i then []
           else (if prev c \<noteq> [] then eol p else []) @ GATE_STIM ! i) @
          concat (map (\<lambda>d. '' '' @ d) (d # ds))\<rparr>"
    by (simp add: c1_def)
  finally show ?case .
qed



subsection \<open>The register declaration\<close>

text \<open>
  Claim C5. The claim: a \<^verbatim>\<open>qreg\<close> directive adds a header line, \<open>#\<close> and the digits,
  to the output at the place of the directive; \<^verbatim>\<open>qreg q[5];\<close> gives the line \<open>#5\<close>.
  The code: the branch stores \<open>#\<close>, the digits and a line end behind whatever was
  stored last, and \<^verbatim>\<open>read_gate\<close> ends the line of a gate only when the next gate with
  another name is written. After \<^verbatim>\<open>h q[0];\<close> the line of the gate is still open, and
  the header of \<^verbatim>\<open>qreg q[5];\<close> is stored on that line: the output is the line
  \<open>H 0#5\<close> and an empty line, and no line of the output is \<open>#5\<close>. It is the cause of
  claim C2, seen from the header. Where the directive is the first statement, the
  header is the line \<open>#5\<close>.
\<close>

theorem qreg_header_joins_gate_line:
  "to_stim p (read_qasm p f ''h q[0];\<newline>qreg q[5];'') =
     Inr \<lparr>written_to = stim_file_path f,
          stim_bytes = ''H 0#5'' @ eol p @ eol p,
          qubits = ''5''\<rparr> \<and>
   text_lines (''H 0#5'' @ eol p @ eol p) =
     (if linux p then [''H 0#5'' @ [carriage_return], [carriage_return]] else [''H 0#5'', []]) \<and>
   ''#5'' \<notin> set (text_lines (''H 0#5'' @ eol p @ eol p)) \<and>
   ''#5'' @ [carriage_return] \<notin> set (text_lines (''H 0#5'' @ eol p @ eol p)) \<and>
   to_stim p (read_qasm p f ''qreg q[5];\<newline>h q[0];'') =
     Inr \<lparr>written_to = stim_file_path f,
          stim_bytes = ''#5'' @ eol p @ ''H 0'' @ eol p,
          qubits = ''5''\<rparr> \<and>
   text_lines (''#5'' @ eol p @ ''H 0'' @ eol p) =
     (if linux p then [''#5'' @ [carriage_return], ''H 0'' @ [carriage_return]]
      else [''#5'', ''H 0''])"
  by (simp add: run_rules run_defs text_lines_def eol_def carriage_return_def)

subsection \<open>Reads outside the input buffer\<close>

lemma eatWS_replicate:
  assumes "isSpace ch"
  shows "eatWS (replicate n ch) = Inl OutOfBounds"
    and "eatWS (replicate n ch @ [NUL]) = Inr [NUL]"
  using assms by (induction n) (simp_all add: isSpace_def NUL_def)

lemma page_size_update: "page_size (p\<lparr>linux := b\<rparr>) = page_size p"
  by (simp add: page_size_def)

text \<open>
  Claim C10. The claim: two runs on one input buffer write the same bytes. The code
  reads bytes that are not in the buffer, and what it does next follows from what it
  finds there, which the input does not fix.
  \<^item> \<^verbatim>\<open>toFloat\<close> looks for the semicolon and for nothing else: on a file that ends
    with \<^verbatim>\<open>OPENQASM 2.0\<close> and no semicolon it reads on, past the NUL behind the
    buffer, on every platform.
  \<^item> With \<^verbatim>\<open>mmap\<close> a file that fills its last page has no NUL behind it. White
    space at the end of such a file, a page of blanks or a statement and line feeds up
    to the end of the page, takes \<^verbatim>\<open>eatWS\<close> to the byte behind the mapping. The same
    bytes in the \<^verbatim>\<open>calloc\<close> buffer are translated: there the byte is the NUL.
\<close>

theorem reads_outside_buffer:
  "to_stim p (read_qasm p f ''OPENQASM 2.0'') = Inl OutOfBounds \<and>
   to_stim (p\<lparr>linux := True\<rparr>)
       (read_qasm (p\<lparr>linux := True\<rparr>) f (replicate (page_size p) (CHR '' ''))) =
     Inl OutOfBounds \<and>
   to_stim (p\<lparr>linux := True\<rparr>)
       (read_qasm (p\<lparr>linux := True\<rparr>) f (''x q[0];'' @ replicate (page_size p - 7) newline)) =
     Inl OutOfBounds \<and>
   to_stim (p\<lparr>linux := False\<rparr>)
       (read_qasm (p\<lparr>linux := False\<rparr>) f (''x q[0];'' @ replicate (page_size p - 7) newline)) =
     Inr \<lparr>written_to = stim_file_path f, stim_bytes = ''X 0'' @ [newline], qubits = []\<rparr>"
proof (intro conjI)
  show "to_stim p (read_qasm p f ''OPENQASM 2.0'') = Inl OutOfBounds"
    by (simp add: run_rules run_defs toFloat_def)
next
  let ?p = "p\<lparr>linux := True\<rparr>"
  let ?c = "read_qasm ?p f (replicate (page_size p) (CHR '' ''))"
  have e: "eof ?c = []"
    by (simp add: read_qasm_def page_size_update)
  have "0 < page_size p"
    using page_size_ge [of p] by simp
  then have "to_stim_loop ?p (replicate (page_size p) (CHR '' '')) ?c = Inl OutOfBounds"
    by (subst to_stim_loop_go) (simp_all add: e eatWS_replicate(1) isSpace_def)
  then show "to_stim ?p ?c = Inl OutOfBounds"
    by (simp add: to_stim_def e) (simp add: read_qasm_def)
next
  define q where "q = p\<lparr>linux := True\<rparr>"
  define b where "b = gate_stmt (GATE_QASM ! 1) ''0'' @ replicate (page_size p - 7) newline"
  define c where "c = read_qasm q f b"
  have b: "b = ''x q[0];'' @ replicate (page_size p - 7) newline"
    by (simp add: b_def gate_stmt_def GATE_QASM_def)
  have "length b = page_size p" and more: "0 < page_size p - 7"
    using page_size_ge [of p] by (simp_all add: b)
  then have e: "eof c = []"
    by (simp add: c_def q_def read_qasm_def page_size_update)
  have c: "qasm c = b" "prev c = []" "stim c = []" "path c = f" "max_qubits c = []"
    by (simp_all add: c_def read_qasm_def)
  have d: "decimal ''0''" and i: "1 < MAX_GATES"
    by (simp_all add: decimal_def MAX_GATES_def)
  have "to_stim_loop q (gate_stmt (GATE_QASM ! 1) ''0'' @ replicate (page_size p - 7) newline) c =
      to_stim_loop q (replicate (page_size p - 7) newline)
        (c\<lparr>prev := GATE_STIM ! 1,
            stim := stim c @
              (if prev c = GATE_STIM ! 1 then '' ''
               else (if prev c \<noteq> [] then eol q else []) @ GATE_STIM ! 1 @ '' '') @ ''0''\<rparr>)"
    by (rule to_stim_loop_gate [OF i d]) (simp_all add: e c)
  also have "\<dots> = Inl OutOfBounds"
    using more
    by (subst to_stim_loop_go) (simp_all add: e eatWS_replicate(1) isSpace_def newline_def)
  finally have "to_stim q c = Inl OutOfBounds"
    by (simp add: to_stim_def e c b_def)
  then show "to_stim (p\<lparr>linux := True\<rparr>)
       (read_qasm (p\<lparr>linux := True\<rparr>) f (''x q[0];'' @ replicate (page_size p - 7) newline)) =
     Inl OutOfBounds"
    by (simp only: c_def q_def b)
next
  define q where "q = p\<lparr>linux := False\<rparr>"
  define b where "b = gate_stmt (GATE_QASM ! 1) ''0'' @ replicate (page_size p - 7) newline"
  define c where "c = read_qasm q f b"
  have b: "b = ''x q[0];'' @ replicate (page_size p - 7) newline"
    by (simp add: b_def gate_stmt_def GATE_QASM_def)
  have more: "0 < page_size p - 7"
    using page_size_ge [of p] by simp
  have e: "eof c = [NUL]"
    by (simp add: c_def q_def read_qasm_def)
  have c: "qasm c = b" "prev c = []" "stim c = []" "path c = f" "max_qubits c = []"
    by (simp_all add: c_def read_qasm_def)
  have d: "decimal ''0''" and i: "1 < MAX_GATES"
    by (simp_all add: decimal_def MAX_GATES_def)
  define c1 where "c1 = c\<lparr>prev := GATE_STIM ! 1,
            stim := stim c @
              (if prev c = GATE_STIM ! 1 then '' ''
               else (if prev c \<noteq> [] then eol q else []) @ GATE_STIM ! 1 @ '' '') @ ''0''\<rparr>"
  have c1: "eof c1 = [NUL]" "stim c1 = ''X 0''" "path c1 = f" "max_qubits c1 = []"
    by (simp_all add: c1_def e c GATE_STIM_def)
  have "to_stim_loop q
        (gate_stmt (GATE_QASM ! 1) ''0'' @ (replicate (page_size p - 7) newline @ [NUL])) c =
      to_stim_loop q (replicate (page_size p - 7) newline @ [NUL]) c1"
    unfolding c1_def by (rule to_stim_loop_gate [OF i d]) (simp_all add: e c)
  also have "\<dots> = Inr c1"
    using more
    by (subst to_stim_loop_go) (simp_all add: c1 eatWS_replicate(2) isSpace_def newline_def)
  finally have "to_stim q c =
      Inr \<lparr>written_to = stim_file_path f, stim_bytes = ''X 0'' @ [newline], qubits = []\<rparr>"
    by (simp add: to_stim_def e c c1 b_def) (simp add: eol_def q_def)
  then show "to_stim (p\<lparr>linux := False\<rparr>)
       (read_qasm (p\<lparr>linux := False\<rparr>) f (''x q[0];'' @ replicate (page_size p - 7) newline)) =
     Inr \<lparr>written_to = stim_file_path f, stim_bytes = ''X 0'' @ [newline], qubits = []\<rparr>"
    by (simp only: c_def q_def b)
qed

section \<open>A platform with IEEE 754 binary64 arithmetic\<close>

text \<open>
  The arithmetic of \<^verbatim>\<open>double\<close> where each operation is rounded once to binary64,
  to nearest with ties to even (SSE2 on x86-64, AArch64). A finite value is the
  rational number it stands for; the two zeros are one value, which no comparison of
  the program tells apart and by which the program never divides.
\<close>

datatype double = Finite rat | PlusInf | MinusInf | NotANumber

definition pow2 :: "int \<Rightarrow> rat" where
  "pow2 e = (if 0 \<le> e then 2 ^ nat e else 1 / 2 ^ nat (- e))"

text \<open>The number of binary digits of a positive integer.\<close>

function bit_length :: "int \<Rightarrow> int" where
  "bit_length n = (if n \<le> 0 then 0 else 1 + bit_length (n div 2))"
  by pat_completeness auto
termination
  by (relation "measure nat") auto

declare bit_length.simps [simp del]

text \<open>For \<open>0 < x\<close>: the \<open>e\<close> with \<open>2 ^ e \<le> x < 2 ^ (e + 1)\<close>, from the digits of the
  integer part of \<open>x\<close>, or of \<open>1 / x\<close> when \<open>x < 1\<close>.\<close>

definition exponent_of :: "rat \<Rightarrow> int" where
  "exponent_of x =
     (if 1 \<le> x then bit_length \<lfloor>x\<rfloor> - 1 else - bit_length (\<lceil>1 / x\<rceil> - 1))"

definition round_half_even :: "rat \<Rightarrow> int" where
  "round_half_even x =
     (let k = \<lfloor>x\<rfloor>; r = x - of_int k
      in if r < 1 / 2 then k else if 1 / 2 < r then k + 1 else if even k then k else k + 1)"

text \<open>The binary64 value next to a rational: 53 bits from the leading bit on, not below
  the exponent of the subnormal numbers; infinite from \<open>2 ^ 1024\<close> on.\<close>

definition b64_round :: "rat \<Rightarrow> double" where
  "b64_round x =
     (if x = 0 then Finite 0
      else
        let e = exponent_of \<bar>x\<bar>;
            q = max (e - 52) (- 1074);
            y = of_int (round_half_even (\<bar>x\<bar> / pow2 q)) * pow2 q
        in if pow2 1024 \<le> y then (if 0 < x then PlusInf else MinusInf)
           else Finite (if 0 < x then y else - y))"

fun b64_add :: "double \<Rightarrow> double \<Rightarrow> double" where
  "b64_add (Finite a) (Finite b) = b64_round (a + b)"
| "b64_add NotANumber y = NotANumber"
| "b64_add x NotANumber = NotANumber"
| "b64_add PlusInf MinusInf = NotANumber"
| "b64_add MinusInf PlusInf = NotANumber"
| "b64_add PlusInf y = PlusInf"
| "b64_add MinusInf y = MinusInf"
| "b64_add x PlusInf = PlusInf"
| "b64_add x MinusInf = MinusInf"

text \<open>The sign of a product or quotient with an infinite side, from the signs of the
  two sides.\<close>

definition infinite_of :: "bool \<Rightarrow> double" where
  "infinite_of negative = (if negative then MinusInf else PlusInf)"

fun is_negative :: "double \<Rightarrow> bool" where
  "is_negative (Finite a) = (a < 0)"
| "is_negative MinusInf = True"
| "is_negative x = False"

fun b64_mul :: "double \<Rightarrow> double \<Rightarrow> double" where
  "b64_mul (Finite a) (Finite b) = b64_round (a * b)"
| "b64_mul NotANumber y = NotANumber"
| "b64_mul x NotANumber = NotANumber"
| "b64_mul (Finite a) y = (if a = 0 then NotANumber else infinite_of ((a < 0) \<noteq> is_negative y))"
| "b64_mul x (Finite b) = (if b = 0 then NotANumber else infinite_of (is_negative x \<noteq> (b < 0)))"
| "b64_mul x y = infinite_of (is_negative x \<noteq> is_negative y)"

fun b64_div :: "double \<Rightarrow> double \<Rightarrow> double" where
  "b64_div (Finite a) (Finite b) =
     (if b = 0 then (if a = 0 then NotANumber else infinite_of (a < 0)) else b64_round (a / b))"
| "b64_div NotANumber y = NotANumber"
| "b64_div x NotANumber = NotANumber"
| "b64_div (Finite a) y = Finite 0"
| "b64_div x (Finite b) = infinite_of (is_negative x \<noteq> (b < 0))"
| "b64_div x y = NotANumber"

fun b64_neq :: "double \<Rightarrow> double \<Rightarrow> bool" where
  "b64_neq NotANumber y = True"
| "b64_neq x NotANumber = True"
| "b64_neq x y = (x \<noteq> y)"

text \<open>The platform with that arithmetic, for each choice of the other parameters.\<close>

definition ieee_binary64 :: "bool \<Rightarrow> nat \<Rightarrow> bool \<Rightarrow> double platform" where
  "ieee_binary64 on_linux shift signed_char =
     \<lparr>linux = on_linux, page_shift = shift, char_signed = signed_char,
      fp_of_int = (\<lambda>i. b64_round (of_int i)),
      fp_add = b64_add, fp_mul = b64_mul, fp_div = b64_div, fp_neq = b64_neq\<rparr>"

lemma floor_rat_numeral: "\<lfloor>numeral a / numeral b :: rat\<rfloor> = numeral a div numeral b"
  using floor_divide_of_int_eq [of "numeral a" "numeral b", where ?'a = rat] by simp

lemma ceiling_rat_numeral: "\<lceil>numeral a / numeral b :: rat\<rceil> = - ((- numeral a) div numeral b)"
  using floor_divide_of_int_eq [of "- numeral a" "numeral b", where ?'a = rat]
  by (simp add: ceiling_def)

lemma floor_rat_one: "\<lfloor>1 / numeral b :: rat\<rfloor> = 1 div numeral b"
  using floor_divide_of_int_eq [of 1 "numeral b", where ?'a = rat] by simp

lemma ceiling_rat_one: "\<lceil>1 / numeral b :: rat\<rceil> = - ((- 1) div numeral b)"
  using floor_divide_of_int_eq [of "- 1" "numeral b", where ?'a = rat]
  by (simp add: ceiling_def)

lemmas b64_eval =
  b64_round_def exponent_of_def round_half_even_def pow2_def bit_length.simps Let_def
  infinite_of_def floor_rat_numeral ceiling_rat_numeral floor_rat_one ceiling_rat_one

lemma ieee_binary64_sel:
  "linux (ieee_binary64 lx sh sg) = lx"
  "page_shift (ieee_binary64 lx sh sg) = sh"
  "char_signed (ieee_binary64 lx sh sg) = sg"
  "fp_of_int (ieee_binary64 lx sh sg) i = b64_round (of_int i)"
  "fp_add (ieee_binary64 lx sh sg) = b64_add"
  "fp_mul (ieee_binary64 lx sh sg) = b64_mul"
  "fp_div (ieee_binary64 lx sh sg) = b64_div"
  "fp_neq (ieee_binary64 lx sh sg) = b64_neq"
  by (simp_all add: ieee_binary64_def)

text \<open>The loop of \<^verbatim>\<open>toFloat\<close>, one byte at a time.\<close>

lemma toFloat_loop_step:
  "ch \<noteq> CHR '';'' \<Longrightarrow>
   toFloat_loop p (ch # str) n f is_point =
     toFloat_loop p str
       (if isDigit p ch
        then fp_add p (fp_mul p n (fp_of_int p 10)) (fp_of_int p (char_val p ch - 48))
        else n)
       (if is_point then fp_div p f (fp_of_int p 10) else f)
       (is_point \<or> ch = CHR ''.'')"
  by (simp add: Let_def)

lemma toFloat_loop_semicolon:
  "toFloat_loop p (CHR '';'' # str) n f is_point = Inr (fp_mul p n f, CHR '';'' # str)"
  by simp

lemmas version_eval =
  toFloat_def toFloat_loop_step toFloat_loop_semicolon ieee_binary64_sel isDigit_def
  char_val_def isSpace_def b64_eval


subsection \<open>Rounding\<close>

lemma bit_length_bounds:
  "0 < n \<Longrightarrow> 1 \<le> bit_length n \<and> 2 ^ nat (bit_length n - 1) \<le> n \<and> n < 2 ^ nat (bit_length n)"
proof (induction n rule: bit_length.induct)
  case (1 n)
  show ?case
  proof (cases "n div 2 = 0")
    case True
    with "1.prems" have "n = 1"
      by arith
    then show ?thesis
      by (simp add: bit_length.simps)
  next
    case False
    with "1.prems" have pos: "0 < n div 2"
      by arith
    define b where "b = bit_length (n div 2)"
    from "1.IH" pos "1.prems" have ih: "1 \<le> b" "2 ^ nat (b - 1) \<le> n div 2" "n div 2 < 2 ^ nat b"
      by (simp_all add: b_def)
    have bl: "bit_length n = 1 + b"
      using "1.prems" by (subst bit_length.simps) (simp add: b_def)
    have p: "(2::int) ^ nat b = 2 * 2 ^ nat (b - 1)"
      using ih(1) by (metis Suc_nat_eq_nat_zadd1 add.commute diff_add_cancel diff_ge_0_iff_ge power_Suc)
    have "(2::int) ^ nat (1 + b) = 2 * 2 ^ nat b"
      using ih(1) by (simp add: nat_add_distrib)
    with ih p show ?thesis
      unfolding bl by auto
  qed
qed


lemma pow2_nonneg: "0 \<le> e \<Longrightarrow> pow2 e = of_int (2 ^ nat e)"
  by (simp add: pow2_def)

lemma pow2_pos: "0 < pow2 e"
  by (simp add: pow2_def)

lemma pow2_Suc: "pow2 (e + 1) = 2 * pow2 e"
proof (cases "0 \<le> e")
  case True
  then show ?thesis
    by (simp add: pow2_def nat_add_distrib)
next
  case False
  then have "nat (- e) = Suc (nat (- (e + 1)))"
    by simp
  with False show ?thesis
    by (cases "e = - 1") (simp_all add: pow2_def)
qed

text \<open>\<open>exponent_of\<close> is the exponent of the leading binary digit.\<close>

lemma exponent_of_bounds:
  assumes "0 < x"
  shows "pow2 (exponent_of x) \<le> x \<and> x < pow2 (exponent_of x + 1)"
proof (cases "1 \<le> x")
  case True
  define k where "k = \<lfloor>x\<rfloor>"
  have k: "0 < k" "of_int k \<le> x" "x < of_int (k + 1)"
    using True by (simp_all add: k_def) linarith+
  from bit_length_bounds [OF k(1)]
  have b: "1 \<le> bit_length k" "2 ^ nat (bit_length k - 1) \<le> k" "k < 2 ^ nat (bit_length k)"
    by simp_all
  have e: "exponent_of x = bit_length k - 1"
    using True by (simp add: exponent_of_def k_def)
  have "pow2 (bit_length k - 1) = of_int (2 ^ nat (bit_length k - 1))"
    using b(1) by (intro pow2_nonneg) simp
  also have "\<dots> \<le> of_int k"
    using b(2) by (simp only: of_int_le_iff)
  finally have low: "pow2 (exponent_of x) \<le> x"
    using k(2) by (simp add: e)
  have "k + 1 \<le> 2 ^ nat (bit_length k)"
    using b(3) by simp
  then have "(of_int (k + 1) :: rat) \<le> of_int (2 ^ nat (bit_length k))"
    by (simp only: of_int_le_iff)
  also have "\<dots> = pow2 (bit_length k)"
    using b(1) by (intro pow2_nonneg [symmetric]) simp
  finally have "x < pow2 (exponent_of x + 1)"
    using k(3) by (simp add: e)
  with low show ?thesis ..
next
  case False
  define y where "y = 1 / x"
  define m where "m = \<lceil>y\<rceil> - 1"
  from False assms have y: "1 < y"
    by (simp add: y_def)
  then have m: "0 < m" "of_int m < y" "y \<le> of_int (m + 1)"
    by (simp_all add: m_def) linarith+
  from bit_length_bounds [OF m(1)]
  have b: "1 \<le> bit_length m" "2 ^ nat (bit_length m - 1) \<le> m" "m < 2 ^ nat (bit_length m)"
    by simp_all
  have e: "exponent_of x = - bit_length m"
    using False by (simp add: exponent_of_def m_def y_def)
  have x: "x = 1 / y"
    by (simp add: y_def)
  have "m + 1 \<le> 2 ^ nat (bit_length m)"
    using b(3) by simp
  then have "(of_int (m + 1) :: rat) \<le> of_int (2 ^ nat (bit_length m))"
    by (simp only: of_int_le_iff)
  also have "\<dots> = 2 ^ nat (bit_length m)"
    by simp
  finally have "y \<le> 2 ^ nat (bit_length m)"
    using m(3) by (rule order_trans [rotated])
  then have "1 / 2 ^ nat (bit_length m) \<le> 1 / y"
    using y by (intro divide_left_mono) simp_all
  moreover have "pow2 (exponent_of x) = 1 / 2 ^ nat (bit_length m)"
    using b(1) by (simp add: e pow2_def)
  ultimately have low: "pow2 (exponent_of x) \<le> x"
    by (simp only: y_def) simp
  have "(2 ^ nat (bit_length m - 1) :: rat) = of_int (2 ^ nat (bit_length m - 1))"
    by simp
  also have "\<dots> \<le> of_int m"
    using b(2) by (simp only: of_int_le_iff)
  also note m(2)
  finally have lt: "2 ^ nat (bit_length m - 1) < y" .
  then have "1 / y < 1 / 2 ^ nat (bit_length m - 1)"
    using y by (intro divide_strict_left_mono) simp_all
  moreover have "pow2 (exponent_of x + 1) = 1 / 2 ^ nat (bit_length m - 1)"
    using b(1) by (cases "bit_length m = 1") (simp_all add: e pow2_def)
  ultimately have "x < pow2 (exponent_of x + 1)"
    by (simp only: y_def) simp
  with low show ?thesis ..
qed


lemma pow2_powi: "pow2 e = 2 powi e"
  by (simp add: pow2_def power_int_def field_simps)

lemma round_half_even_near: "\<bar>of_int (round_half_even x) - x\<bar> \<le> 1 / 2"
proof -
  define k where "k = \<lfloor>x\<rfloor>"
  have "of_int k \<le> x" and "x < of_int k + 1"
    by (simp_all add: k_def) linarith
  then show ?thesis
    unfolding round_half_even_def Let_def k_def [symmetric]
    by (auto simp: abs_if)
qed


lemma round_half_even_int: "round_half_even (of_int k) = k"
  by (simp add: round_half_even_def)

text \<open>A finite result of \<open>b64_round\<close> is no further from the argument than half a unit of
  the last place.\<close>

lemma b64_round_error:
  assumes "b64_round x = Finite y" and "x \<noteq> 0"
  shows "\<bar>y - x\<bar> \<le> pow2 (max (exponent_of \<bar>x\<bar> - 52) (- 1074)) / 2"
proof -
  define q where "q = max (exponent_of \<bar>x\<bar> - 52) (- 1074)"
  define z where "z = \<bar>x\<bar> / pow2 q"
  define m where "m = round_half_even z"
  have pq: "0 < pow2 q"
    by (rule pow2_pos)
  from assms have y: "y = (if 0 < x then of_int m * pow2 q else - (of_int m * pow2 q))"
    by (simp add: b64_round_def Let_def q_def m_def z_def split: if_splits)
  have near: "\<bar>of_int m - z\<bar> \<le> 1 / 2"
    unfolding m_def by (rule round_half_even_near)
  have "of_int m * pow2 q - \<bar>x\<bar> = pow2 q * (of_int m - z)"
    using pq by (simp add: z_def field_simps)
  then have "\<bar>of_int m * pow2 q - \<bar>x\<bar>\<bar> = pow2 q * \<bar>of_int m - z\<bar>"
    using pq by (simp add: abs_mult)
  also have "\<dots> \<le> pow2 q * (1 / 2)"
    using near pq by (intro mult_left_mono) simp_all
  finally have err: "\<bar>of_int m * pow2 q - \<bar>x\<bar>\<bar> \<le> pow2 q / 2"
    by simp
  show ?thesis
  proof (cases "0 < x")
    case True
    with y have "y - x = of_int m * pow2 q - \<bar>x\<bar>"
      by simp
    with err show ?thesis
      by (simp only: q_def)
  next
    case False
    with assms(2) have neg: "x < 0"
      by simp
    with y have "y - x = - (of_int m * pow2 q - \<bar>x\<bar>)"
      by simp
    then have "\<bar>y - x\<bar> = \<bar>of_int m * pow2 q - \<bar>x\<bar>\<bar>"
      by (simp only: abs_minus)
    with err show ?thesis
      by (simp only: q_def)
  qed
qed

text \<open>An integer below \<open>2 ^ 53\<close> is a binary64 number.\<close>

lemma b64_round_nat:
  assumes "n < 2 ^ 53"
  shows "b64_round (of_nat n) = Finite (of_nat n)"
proof (cases "n = 0")
  case True
  then show ?thesis
    by (simp add: b64_round_def)
next
  case False
  define k :: int where "k = int n"
  have k: "0 < k" "k < 2 ^ 53"
    using False assms by (simp_all add: k_def)
  have x: "(of_nat n :: rat) = of_int k"
    by (simp add: k_def)
  from bit_length_bounds [OF k(1)]
  have b: "1 \<le> bit_length k" "2 ^ nat (bit_length k - 1) \<le> k" "k < 2 ^ nat (bit_length k)"
    by simp_all
  have "nat (bit_length k - 1) < 53"
  proof (rule ccontr)
    assume "\<not> nat (bit_length k - 1) < 53"
    then have "(2::int) ^ 53 \<le> 2 ^ nat (bit_length k - 1)"
      by (intro power_increasing) simp_all
    with b(2) k(2) show False
      by linarith
  qed
  with b(1) have bl: "bit_length k \<le> 53"
    by simp
  define e where "e = bit_length k - 1"
  have e: "0 \<le> e" "e \<le> 52"
    using b(1) bl by (simp_all add: e_def)
  have one: "(1::rat) \<le> of_int k"
    using k(1) by simp
  have ex: "exponent_of \<bar>of_int k\<bar> = e"
    using one k(1) by (simp add: exponent_of_def e_def)
  have q: "max (e - 52) (- 1074) = e - 52"
    using e by simp
  have pq: "pow2 (e - 52) = 1 / 2 ^ nat (52 - e)"
    using e by (simp add: pow2_def)
  have z: "\<bar>of_int k :: rat\<bar> / pow2 (e - 52) = of_int (k * 2 ^ nat (52 - e))"
    using k(1) by (simp add: pq)
  have y: "of_int (round_half_even (\<bar>of_int k :: rat\<bar> / pow2 (e - 52))) * pow2 (e - 52) =
      (of_int k :: rat)"
    unfolding z round_half_even_int by (simp add: pq)
  have "(of_int k :: rat) < of_int (2 ^ 53)"
    using k(2) by (simp only: of_int_less_iff)
  also have "\<dots> \<le> pow2 1024"
    by (simp add: pow2_def)
  finally have fin: "\<not> pow2 1024 \<le> (of_int k :: rat)"
    by simp
  have nz: "(of_int k :: rat) \<noteq> 0" "0 < (of_int k :: rat)"
    using k(1) by simp_all
  show ?thesis
    unfolding x b64_round_def Let_def ex q y using fin nz by simp
qed

text \<open>What rounds to 2 is within one part in \<open>2 ^ 53\<close> of it.\<close>

lemma round_to_2:
  assumes "b64_round x = Finite 2"
  shows "\<bar>2 - x\<bar> \<le> \<bar>x\<bar> / 2 ^ 53"
proof -
  from assms have nz: "x \<noteq> 0"
    by (auto simp: b64_round_def)
  then have ax: "0 < \<bar>x\<bar>"
    by simp
  define e where "e = exponent_of \<bar>x\<bar>"
  have eb: "pow2 e \<le> \<bar>x\<bar>" "\<bar>x\<bar> < pow2 (e + 1)"
    using exponent_of_bounds [OF ax] by (simp_all add: e_def)
  have err: "\<bar>2 - x\<bar> \<le> pow2 (max (e - 52) (- 1074)) / 2"
    using b64_round_error [OF assms nz] by (simp add: e_def)
  show ?thesis
  proof (cases "- 1074 \<le> e - 52")
    case True
    then have "max (e - 52) (- 1074) = e - 52"
      by simp
    moreover have "pow2 (e - 52) / 2 = pow2 e / 2 ^ 53"
      by (simp add: pow2_powi power_int_diff)
    ultimately have "\<bar>2 - x\<bar> \<le> pow2 e / 2 ^ 53"
      using err by simp
    also have "\<dots> \<le> \<bar>x\<bar> / 2 ^ 53"
      using eb(1) by (simp add: divide_right_mono)
    finally show ?thesis .
  next
    case False
    then have q: "max (e - 52) (- 1074) = - 1074" and small: "e + 1 \<le> 0"
      by simp_all
    have "pow2 (e + 1) \<le> pow2 0"
      unfolding pow2_powi using small by (intro power_int_increasing) simp_all
    then have "\<bar>x\<bar> < 1"
      using eb(2) by (simp add: pow2_def)
    moreover have "pow2 (- 1074) \<le> pow2 0"
      unfolding pow2_powi by (intro power_int_increasing) simp_all
    then have "\<bar>2 - x\<bar> \<le> 1 / 2"
      using err by (simp add: q pow2_def)
    ultimately show ?thesis
      by (simp add: abs_if split: if_splits)
  qed
qed

subsection \<open>The factor of \<^verbatim>\<open>toFloat\<close>\<close>

text \<open>\<^verbatim>\<open>f\<close> after \<open>k\<close> bytes behind the point: 1.0 divided \<open>k\<close> times by 10.0, each
  quotient rounded.\<close>

primrec tenths :: "nat \<Rightarrow> double" where
  "tenths 0 = Finite 1"
| "tenths (Suc k) = b64_div (tenths k) (Finite 10)"

lemma tenths_1: "tenths 1 = Finite (3602879701896397 / 36028797018963968)"
  by (simp add: b64_eval)

lemma tenths_2: "tenths 2 = Finite (5764607523034235 / 576460752303423488)"
proof -
  have "tenths 2 = b64_div (tenths 1) (Finite 10)"
    using tenths.simps(2) [of 1] by (simp del: tenths.simps One_nat_def)
  also have "\<dots> = Finite (5764607523034235 / 576460752303423488)"
    unfolding tenths_1 by (simp add: b64_eval)
  finally show ?thesis .
qed

lemma tenths_3: "tenths 3 = Finite (1152921504606847 / 1152921504606846976)"
proof -
  have "tenths 3 = b64_div (tenths 2) (Finite 10)"
    using tenths.simps(2) [of 2] by (simp del: tenths.simps One_nat_def)
  also have "\<dots> = Finite (1152921504606847 / 1152921504606846976)"
    unfolding tenths_2 by (simp add: b64_eval)
  finally show ?thesis .
qed

lemma tenths_4: "tenths 4 = Finite (7378697629483821 / 73786976294838206464)"
proof -
  have "tenths 4 = b64_div (tenths 3) (Finite 10)"
    using tenths.simps(2) [of 3] by (simp del: tenths.simps One_nat_def)
  also have "\<dots> = Finite (7378697629483821 / 73786976294838206464)"
    unfolding tenths_3 by (simp add: b64_eval)
  finally show ?thesis .
qed

lemma tenths_5: "tenths 5 = Finite (5902958103587057 / 590295810358705651712)"
proof -
  have "tenths 5 = b64_div (tenths 4) (Finite 10)"
    using tenths.simps(2) [of 4] by (simp del: tenths.simps One_nat_def)
  also have "\<dots> = Finite (5902958103587057 / 590295810358705651712)"
    unfolding tenths_4 by (simp add: b64_eval)
  finally show ?thesis .
qed

lemma tenths_6: "tenths 6 = Finite (2361183241434823 / 2361183241434822606848)"
proof -
  have "tenths 6 = b64_div (tenths 5) (Finite 10)"
    using tenths.simps(2) [of 5] by (simp del: tenths.simps One_nat_def)
  also have "\<dots> = Finite (2361183241434823 / 2361183241434822606848)"
    unfolding tenths_5 by (simp add: b64_eval)
  finally show ?thesis .
qed

lemma tenths_7: "tenths 7 = Finite (3777893186295717 / 37778931862957161709568)"
proof -
  have "tenths 7 = b64_div (tenths 6) (Finite 10)"
    using tenths.simps(2) [of 6] by (simp del: tenths.simps One_nat_def)
  also have "\<dots> = Finite (3777893186295717 / 37778931862957161709568)"
    unfolding tenths_6 by (simp add: b64_eval)
  finally show ?thesis .
qed

lemma tenths_8: "tenths 8 = Finite (6044629098073147 / 604462909807314587353088)"
proof -
  have "tenths 8 = b64_div (tenths 7) (Finite 10)"
    using tenths.simps(2) [of 7] by (simp del: tenths.simps One_nat_def)
  also have "\<dots> = Finite (6044629098073147 / 604462909807314587353088)"
    unfolding tenths_7 by (simp add: b64_eval)
  finally show ?thesis .
qed

lemma tenths_9: "tenths 9 = Finite (2417851639229259 / 2417851639229258349412352)"
proof -
  have "tenths 9 = b64_div (tenths 8) (Finite 10)"
    using tenths.simps(2) [of 8] by (simp del: tenths.simps One_nat_def)
  also have "\<dots> = Finite (2417851639229259 / 2417851639229258349412352)"
    unfolding tenths_8 by (simp add: b64_eval)
  finally show ?thesis .
qed

lemma tenths_10: "tenths 10 = Finite (7737125245533629 / 77371252455336267181195264)"
proof -
  have "tenths 10 = b64_div (tenths 9) (Finite 10)"
    using tenths.simps(2) [of 9] by (simp del: tenths.simps One_nat_def)
  also have "\<dots> = Finite (7737125245533629 / 77371252455336267181195264)"
    unfolding tenths_9 by (simp add: b64_eval)
  finally show ?thesis .
qed

lemma tenths_11: "tenths 11 = Finite (6189700196426903 / 618970019642690137449562112)"
proof -
  have "tenths 11 = b64_div (tenths 10) (Finite 10)"
    using tenths.simps(2) [of 10] by (simp del: tenths.simps One_nat_def)
  also have "\<dots> = Finite (6189700196426903 / 618970019642690137449562112)"
    unfolding tenths_10 by (simp add: b64_eval)
  finally show ?thesis .
qed

lemma tenths_12: "tenths 12 = Finite (2475880078570761 / 2475880078570760549798248448)"
proof -
  have "tenths 12 = b64_div (tenths 11) (Finite 10)"
    using tenths.simps(2) [of 11] by (simp del: tenths.simps One_nat_def)
  also have "\<dots> = Finite (2475880078570761 / 2475880078570760549798248448)"
    unfolding tenths_11 by (simp add: b64_eval)
  finally show ?thesis .
qed

lemma tenths_13: "tenths 13 = Finite (7922816251426435 / 79228162514264337593543950336)"
proof -
  have "tenths 13 = b64_div (tenths 12) (Finite 10)"
    using tenths.simps(2) [of 12] by (simp del: tenths.simps One_nat_def)
  also have "\<dots> = Finite (7922816251426435 / 79228162514264337593543950336)"
    unfolding tenths_12 by (simp add: b64_eval)
  finally show ?thesis .
qed

lemma tenths_14: "tenths 14 = Finite (1584563250285287 / 158456325028528675187087900672)"
proof -
  have "tenths 14 = b64_div (tenths 13) (Finite 10)"
    using tenths.simps(2) [of 13] by (simp del: tenths.simps One_nat_def)
  also have "\<dots> = Finite (1584563250285287 / 158456325028528675187087900672)"
    unfolding tenths_13 by (simp add: b64_eval)
  finally show ?thesis .
qed

lemmas tenths_values =
  tenths.simps(1) tenths_1 tenths_2 tenths_3 tenths_4 tenths_5 tenths_6 tenths_7 tenths_8
  tenths_9 tenths_10 tenths_11 tenths_12 tenths_13 tenths_14

text \<open>With \<open>k\<close> digits behind the point, up to five, the product \<^verbatim>\<open>n * f\<close> is 2.0 for
  the digits of \<open>2 * 10 ^ k\<close> only: the products of the integers next to it are further
  from 2 than half a unit of the last place.\<close>

lemma only_two_0:
  assumes "b64_mul (Finite (of_nat N)) (tenths 0) = Finite 2"
  shows "N = 2"
proof -
  define x :: rat where "x = of_nat N * (1)"
  have x0: "0 \<le> x"
    by (simp add: x_def)
  from assms have "b64_round x = Finite 2"
    by (simp add: x_def)
  from round_to_2 [OF this] have "\<bar>2 - x\<bar> \<le> x / 9007199254740992"
    using x0 by simp
  then have "2 - x \<le> x / 9007199254740992 \<and> - (2 - x) \<le> x / 9007199254740992"
    by (simp only: abs_le_iff)
  then have "(of_nat N :: rat) < 3" and "1 < (of_nat N :: rat)"
    unfolding x_def by linarith+
  then have "N < 3" and "1 < N"
    by simp_all
  then show ?thesis
    by simp
qed

lemma only_two_1:
  assumes "b64_mul (Finite (of_nat N)) (tenths 1) = Finite 2"
  shows "N = 20"
proof -
  define x :: rat where "x = of_nat N * (3602879701896397 / 36028797018963968)"
  have x0: "0 \<le> x"
    by (simp add: x_def)
  from assms have "b64_round x = Finite 2"
    unfolding tenths_1 by (simp add: x_def)
  from round_to_2 [OF this] have "\<bar>2 - x\<bar> \<le> x / 9007199254740992"
    using x0 by simp
  then have "2 - x \<le> x / 9007199254740992 \<and> - (2 - x) \<le> x / 9007199254740992"
    by (simp only: abs_le_iff)
  then have "(of_nat N :: rat) < 21" and "19 < (of_nat N :: rat)"
    unfolding x_def by linarith+
  then have "N < 21" and "19 < N"
    by simp_all
  then show ?thesis
    by simp
qed

lemma only_two_2:
  assumes "b64_mul (Finite (of_nat N)) (tenths 2) = Finite 2"
  shows "N = 200"
proof -
  define x :: rat where "x = of_nat N * (5764607523034235 / 576460752303423488)"
  have x0: "0 \<le> x"
    by (simp add: x_def)
  from assms have "b64_round x = Finite 2"
    unfolding tenths_2 by (simp add: x_def)
  from round_to_2 [OF this] have "\<bar>2 - x\<bar> \<le> x / 9007199254740992"
    using x0 by simp
  then have "2 - x \<le> x / 9007199254740992 \<and> - (2 - x) \<le> x / 9007199254740992"
    by (simp only: abs_le_iff)
  then have "(of_nat N :: rat) < 201" and "199 < (of_nat N :: rat)"
    unfolding x_def by linarith+
  then have "N < 201" and "199 < N"
    by simp_all
  then show ?thesis
    by simp
qed

lemma only_two_3:
  assumes "b64_mul (Finite (of_nat N)) (tenths 3) = Finite 2"
  shows "N = 2000"
proof -
  define x :: rat where "x = of_nat N * (1152921504606847 / 1152921504606846976)"
  have x0: "0 \<le> x"
    by (simp add: x_def)
  from assms have "b64_round x = Finite 2"
    unfolding tenths_3 by (simp add: x_def)
  from round_to_2 [OF this] have "\<bar>2 - x\<bar> \<le> x / 9007199254740992"
    using x0 by simp
  then have "2 - x \<le> x / 9007199254740992 \<and> - (2 - x) \<le> x / 9007199254740992"
    by (simp only: abs_le_iff)
  then have "(of_nat N :: rat) < 2001" and "1999 < (of_nat N :: rat)"
    unfolding x_def by linarith+
  then have "N < 2001" and "1999 < N"
    by simp_all
  then show ?thesis
    by simp
qed

lemma only_two_4:
  assumes "b64_mul (Finite (of_nat N)) (tenths 4) = Finite 2"
  shows "N = 20000"
proof -
  define x :: rat where "x = of_nat N * (7378697629483821 / 73786976294838206464)"
  have x0: "0 \<le> x"
    by (simp add: x_def)
  from assms have "b64_round x = Finite 2"
    unfolding tenths_4 by (simp add: x_def)
  from round_to_2 [OF this] have "\<bar>2 - x\<bar> \<le> x / 9007199254740992"
    using x0 by simp
  then have "2 - x \<le> x / 9007199254740992 \<and> - (2 - x) \<le> x / 9007199254740992"
    by (simp only: abs_le_iff)
  then have "(of_nat N :: rat) < 20001" and "19999 < (of_nat N :: rat)"
    unfolding x_def by linarith+
  then have "N < 20001" and "19999 < N"
    by simp_all
  then show ?thesis
    by simp
qed

lemma only_two_5:
  assumes "b64_mul (Finite (of_nat N)) (tenths 5) = Finite 2"
  shows "N = 200000"
proof -
  define x :: rat where "x = of_nat N * (5902958103587057 / 590295810358705651712)"
  have x0: "0 \<le> x"
    by (simp add: x_def)
  from assms have "b64_round x = Finite 2"
    unfolding tenths_5 by (simp add: x_def)
  from round_to_2 [OF this] have "\<bar>2 - x\<bar> \<le> x / 9007199254740992"
    using x0 by simp
  then have "2 - x \<le> x / 9007199254740992 \<and> - (2 - x) \<le> x / 9007199254740992"
    by (simp only: abs_le_iff)
  then have "(of_nat N :: rat) < 200001" and "199999 < (of_nat N :: rat)"
    unfolding x_def by linarith+
  then have "N < 200001" and "199999 < N"
    by simp_all
  then show ?thesis
    by simp
qed

text \<open>With six to fourteen digits behind the point the product is 2.0 for no digits at
  all: \<^verbatim>\<open>f\<close> has gathered the error of its roundings, and 2 lies between the products
  of two integers that follow each other.\<close>

lemma none_6: "b64_mul (Finite (of_nat N)) (tenths 6) \<noteq> Finite 2"
proof
  assume two: "b64_mul (Finite (of_nat N)) (tenths 6) = Finite 2"
  define x :: rat where "x = of_nat N * (2361183241434823 / 2361183241434822606848)"
  have x0: "0 \<le> x"
    by (simp add: x_def)
  from two have "b64_round x = Finite 2"
    unfolding tenths_6 by (simp add: x_def)
  from round_to_2 [OF this] have "\<bar>2 - x\<bar> \<le> x / 9007199254740992"
    using x0 by simp
  then have "2 - x \<le> x / 9007199254740992 \<and> - (2 - x) \<le> x / 9007199254740992"
    by (simp only: abs_le_iff)
  then have "(of_nat N :: rat) < 2000000" and "1999999 < (of_nat N :: rat)"
    unfolding x_def by linarith+
  then have "N < 2000000" and "1999999 < N"
    by simp_all
  then show False
    by simp
qed

lemma none_7: "b64_mul (Finite (of_nat N)) (tenths 7) \<noteq> Finite 2"
proof
  assume two: "b64_mul (Finite (of_nat N)) (tenths 7) = Finite 2"
  define x :: rat where "x = of_nat N * (3777893186295717 / 37778931862957161709568)"
  have x0: "0 \<le> x"
    by (simp add: x_def)
  from two have "b64_round x = Finite 2"
    unfolding tenths_7 by (simp add: x_def)
  from round_to_2 [OF this] have "\<bar>2 - x\<bar> \<le> x / 9007199254740992"
    using x0 by simp
  then have "2 - x \<le> x / 9007199254740992 \<and> - (2 - x) \<le> x / 9007199254740992"
    by (simp only: abs_le_iff)
  then have "(of_nat N :: rat) < 20000000" and "19999999 < (of_nat N :: rat)"
    unfolding x_def by linarith+
  then have "N < 20000000" and "19999999 < N"
    by simp_all
  then show False
    by simp
qed

lemma none_8: "b64_mul (Finite (of_nat N)) (tenths 8) \<noteq> Finite 2"
proof
  assume two: "b64_mul (Finite (of_nat N)) (tenths 8) = Finite 2"
  define x :: rat where "x = of_nat N * (6044629098073147 / 604462909807314587353088)"
  have x0: "0 \<le> x"
    by (simp add: x_def)
  from two have "b64_round x = Finite 2"
    unfolding tenths_8 by (simp add: x_def)
  from round_to_2 [OF this] have "\<bar>2 - x\<bar> \<le> x / 9007199254740992"
    using x0 by simp
  then have "2 - x \<le> x / 9007199254740992 \<and> - (2 - x) \<le> x / 9007199254740992"
    by (simp only: abs_le_iff)
  then have "(of_nat N :: rat) < 200000000" and "199999999 < (of_nat N :: rat)"
    unfolding x_def by linarith+
  then have "N < 200000000" and "199999999 < N"
    by simp_all
  then show False
    by simp
qed

lemma none_9: "b64_mul (Finite (of_nat N)) (tenths 9) \<noteq> Finite 2"
proof
  assume two: "b64_mul (Finite (of_nat N)) (tenths 9) = Finite 2"
  define x :: rat where "x = of_nat N * (2417851639229259 / 2417851639229258349412352)"
  have x0: "0 \<le> x"
    by (simp add: x_def)
  from two have "b64_round x = Finite 2"
    unfolding tenths_9 by (simp add: x_def)
  from round_to_2 [OF this] have "\<bar>2 - x\<bar> \<le> x / 9007199254740992"
    using x0 by simp
  then have "2 - x \<le> x / 9007199254740992 \<and> - (2 - x) \<le> x / 9007199254740992"
    by (simp only: abs_le_iff)
  then have "(of_nat N :: rat) < 2000000000" and "1999999999 < (of_nat N :: rat)"
    unfolding x_def by linarith+
  then have "N < 2000000000" and "1999999999 < N"
    by simp_all
  then show False
    by simp
qed

lemma none_10: "b64_mul (Finite (of_nat N)) (tenths 10) \<noteq> Finite 2"
proof
  assume two: "b64_mul (Finite (of_nat N)) (tenths 10) = Finite 2"
  define x :: rat where "x = of_nat N * (7737125245533629 / 77371252455336267181195264)"
  have x0: "0 \<le> x"
    by (simp add: x_def)
  from two have "b64_round x = Finite 2"
    unfolding tenths_10 by (simp add: x_def)
  from round_to_2 [OF this] have "\<bar>2 - x\<bar> \<le> x / 9007199254740992"
    using x0 by simp
  then have "2 - x \<le> x / 9007199254740992 \<and> - (2 - x) \<le> x / 9007199254740992"
    by (simp only: abs_le_iff)
  then have "(of_nat N :: rat) < 20000000000" and "19999999999 < (of_nat N :: rat)"
    unfolding x_def by linarith+
  then have "N < 20000000000" and "19999999999 < N"
    by simp_all
  then show False
    by simp
qed

lemma none_11: "b64_mul (Finite (of_nat N)) (tenths 11) \<noteq> Finite 2"
proof
  assume two: "b64_mul (Finite (of_nat N)) (tenths 11) = Finite 2"
  define x :: rat where "x = of_nat N * (6189700196426903 / 618970019642690137449562112)"
  have x0: "0 \<le> x"
    by (simp add: x_def)
  from two have "b64_round x = Finite 2"
    unfolding tenths_11 by (simp add: x_def)
  from round_to_2 [OF this] have "\<bar>2 - x\<bar> \<le> x / 9007199254740992"
    using x0 by simp
  then have "2 - x \<le> x / 9007199254740992 \<and> - (2 - x) \<le> x / 9007199254740992"
    by (simp only: abs_le_iff)
  then have "(of_nat N :: rat) < 200000000000" and "199999999999 < (of_nat N :: rat)"
    unfolding x_def by linarith+
  then have "N < 200000000000" and "199999999999 < N"
    by simp_all
  then show False
    by simp
qed

lemma none_12: "b64_mul (Finite (of_nat N)) (tenths 12) \<noteq> Finite 2"
proof
  assume two: "b64_mul (Finite (of_nat N)) (tenths 12) = Finite 2"
  define x :: rat where "x = of_nat N * (2475880078570761 / 2475880078570760549798248448)"
  have x0: "0 \<le> x"
    by (simp add: x_def)
  from two have "b64_round x = Finite 2"
    unfolding tenths_12 by (simp add: x_def)
  from round_to_2 [OF this] have "\<bar>2 - x\<bar> \<le> x / 9007199254740992"
    using x0 by simp
  then have "2 - x \<le> x / 9007199254740992 \<and> - (2 - x) \<le> x / 9007199254740992"
    by (simp only: abs_le_iff)
  then have "(of_nat N :: rat) < 2000000000000" and "1999999999999 < (of_nat N :: rat)"
    unfolding x_def by linarith+
  then have "N < 2000000000000" and "1999999999999 < N"
    by simp_all
  then show False
    by simp
qed

lemma none_13: "b64_mul (Finite (of_nat N)) (tenths 13) \<noteq> Finite 2"
proof
  assume two: "b64_mul (Finite (of_nat N)) (tenths 13) = Finite 2"
  define x :: rat where "x = of_nat N * (7922816251426435 / 79228162514264337593543950336)"
  have x0: "0 \<le> x"
    by (simp add: x_def)
  from two have "b64_round x = Finite 2"
    unfolding tenths_13 by (simp add: x_def)
  from round_to_2 [OF this] have "\<bar>2 - x\<bar> \<le> x / 9007199254740992"
    using x0 by simp
  then have "2 - x \<le> x / 9007199254740992 \<and> - (2 - x) \<le> x / 9007199254740992"
    by (simp only: abs_le_iff)
  then have "(of_nat N :: rat) < 20000000000000" and "19999999999999 < (of_nat N :: rat)"
    unfolding x_def by linarith+
  then have "N < 20000000000000" and "19999999999999 < N"
    by simp_all
  then show False
    by simp
qed

lemma none_14: "b64_mul (Finite (of_nat N)) (tenths 14) \<noteq> Finite 2"
proof
  assume two: "b64_mul (Finite (of_nat N)) (tenths 14) = Finite 2"
  define x :: rat where "x = of_nat N * (1584563250285287 / 158456325028528675187087900672)"
  have x0: "0 \<le> x"
    by (simp add: x_def)
  from two have "b64_round x = Finite 2"
    unfolding tenths_14 by (simp add: x_def)
  from round_to_2 [OF this] have "\<bar>2 - x\<bar> \<le> x / 9007199254740992"
    using x0 by simp
  then have "2 - x \<le> x / 9007199254740992 \<and> - (2 - x) \<le> x / 9007199254740992"
    by (simp only: abs_le_iff)
  then have "(of_nat N :: rat) < 200000000000000" and "199999999999999 < (of_nat N :: rat)"
    unfolding x_def by linarith+
  then have "N < 200000000000000" and "199999999999999 < N"
    by simp_all
  then show False
    by simp
qed

lemma none_passes:
  assumes "6 \<le> k" and "k \<le> 14"
  shows "b64_mul (Finite (of_nat N)) (tenths k) \<noteq> Finite 2"
proof -
  from assms have "k = 6 \<or> k = 7 \<or> k = 8 \<or> k = 9 \<or> k = 10 \<or> k = 11 \<or> k = 12 \<or> k = 13
      \<or> k = 14"
    by arith
  then show ?thesis
    using none_6 [of N] none_7 [of N] none_8 [of N] none_9 [of N] none_10 [of N] none_11 [of N]
      none_12 [of N] none_13 [of N] none_14 [of N]
    by blast
qed

lemma only_two:
  assumes "k \<le> 14" and "b64_mul (Finite (of_nat N)) (tenths k) = Finite 2"
  shows "N = 2 * 10 ^ k"
proof (cases "6 \<le> k")
  case True
  with assms none_passes [of k N] show ?thesis
    by simp
next
  case False
  then have "k = 0 \<or> k = 1 \<or> k = 2 \<or> k = 3 \<or> k = 4 \<or> k = 5"
    by arith
  then show ?thesis
    using assms(2) only_two_0 [of N] only_two_1 [of N] only_two_2 [of N] only_two_3 [of N]
      only_two_4 [of N] only_two_5 [of N]
    by (elim disjE) (simp_all del: tenths.simps(2) One_nat_def)
qed

lemma two_passes:
  assumes "k \<le> 5"
  shows "b64_mul (Finite (of_nat (2 * 10 ^ k))) (tenths k) = Finite 2"
proof -
  from assms have "k = 0 \<or> k = 1 \<or> k = 2 \<or> k = 3 \<or> k = 4 \<or> k = 5"
    by arith
  then show ?thesis
    by (elim disjE) (simp_all add: tenths_values b64_eval del: tenths.simps(2) One_nat_def)
qed

subsection \<open>Version numbers\<close>

text \<open>The number that decimal digits denote, read from the left with \<open>n\<close> read so
  far.\<close>

definition digit_value :: "char \<Rightarrow> nat" where
  "digit_value ch = of_char ch - 48"

fun number_from :: "nat \<Rightarrow> string \<Rightarrow> nat" where
  "number_from n [] = n"
| "number_from n (ch # ds) = number_from (10 * n + digit_value ch) ds"

text \<open>The version that the digits \<open>ip\<close>, a point and the digits \<open>fp\<close> declare.\<close>

definition declared_version :: "string \<Rightarrow> string \<Rightarrow> rat" where
  "declared_version ip fp = of_nat (number_from 0 (ip @ fp)) / 10 ^ length fp"

lemma number_from_append: "number_from n (ds @ es) = number_from (number_from n ds) es"
  by (induction ds arbitrary: n) simp_all

lemma number_from_mono: "n \<le> number_from n ds"
proof (induction ds arbitrary: n)
  case Nil
  show ?case by simp
next
  case (Cons ch ds)
  have "n \<le> 10 * n + digit_value ch"
    by simp
  also have "\<dots> \<le> number_from (10 * n + digit_value ch) ds"
    by (rule Cons.IH)
  finally show ?case by simp
qed

lemma decimal_digit:
  assumes "ch \<in> set ''0123456789''"
  shows "ch \<noteq> CHR '';''" and "ch \<noteq> CHR ''.''" and "\<not> isSpace ch"
    and "digit_value ch \<le> 9"
  using assms by (auto simp: digit_value_def isSpace_def)

lemma decimal_digit_val:
  assumes "ch \<in> set ''0123456789''"
  shows "isDigit p ch" and "char_val p ch - 48 = int (digit_value ch)"
  using assms by (auto simp: isDigit_def char_val_def digit_value_def)

lemma number_from_bound:
  "list_all (\<lambda>ch. ch \<in> set ''0123456789'') ds \<Longrightarrow>
   number_from n ds < (n + 1) * 10 ^ length ds"
proof (induction ds arbitrary: n)
  case Nil
  show ?case by simp
next
  case (Cons ch ds)
  then have "digit_value ch \<le> 9" and rest: "list_all (\<lambda>ch. ch \<in> set ''0123456789'') ds"
    using decimal_digit(4) [of ch] by simp_all
  have "number_from (10 * n + digit_value ch) ds < (10 * n + digit_value ch + 1) * 10 ^ length ds"
    by (rule Cons.IH [OF rest])
  also have "\<dots> \<le> (10 * (n + 1)) * 10 ^ length ds"
    using \<open>digit_value ch \<le> 9\<close> by (intro mult_right_mono) simp_all
  finally show ?case
    by (simp add: algebra_simps)
qed

lemma number_from_zeros: "number_from n (replicate k (CHR ''0'')) = n * 10 ^ k"
  by (induction k arbitrary: n) (simp_all add: digit_value_def)

text \<open>The loop of \<^verbatim>\<open>toFloat\<close> over decimal digits, in binary64: the digits are gathered
  without error as long as the number stays below \<open>2 ^ 53\<close>, and behind the point each
  digit divides the factor.\<close>

lemma b64_digit_step:
  assumes "10 * n + d < 2 ^ 53"
  shows "b64_add (b64_mul (Finite (of_nat n)) (b64_round (of_int 10))) (b64_round (of_int (int d))) =
           Finite (of_nat (10 * n + d))"
proof -
  have ten: "b64_round (of_int 10) = Finite 10"
    using b64_round_nat [of 10] by simp
  have "b64_round (of_nat n * 10) = b64_round (of_nat (n * 10))"
    by simp
  also have "\<dots> = Finite (of_nat (n * 10))"
    using assms by (intro b64_round_nat) simp
  finally have mul: "b64_mul (Finite (of_nat n)) (Finite 10) = Finite (of_nat (n * 10))"
    by simp
  have d: "b64_round (of_int (int d)) = Finite (of_nat d)"
    using assms b64_round_nat [of d] by simp
  have "b64_round (of_nat (n * 10) + of_nat d) = b64_round (of_nat (10 * n + d))"
    by (simp add: mult.commute)
  also have "\<dots> = Finite (of_nat (10 * n + d))"
    using assms by (intro b64_round_nat)
  finally show ?thesis
    unfolding ten mul d by simp
qed

lemma toFloat_loop_digits:
  assumes "list_all (\<lambda>ch. ch \<in> set ''0123456789'') ds" and "number_from n ds < 2 ^ 53"
  shows "toFloat_loop (ieee_binary64 lx sh sg) (ds @ rest) (Finite (of_nat n)) (tenths j) b =
           toFloat_loop (ieee_binary64 lx sh sg) rest (Finite (of_nat (number_from n ds)))
             (tenths (if b then j + length ds else j)) b"
  using assms
proof (induction ds arbitrary: n j)
  case Nil
  show ?case by simp
next
  case (Cons ch ds)
  let ?p = "ieee_binary64 lx sh sg"
  from Cons.prems have ch: "ch \<in> set ''0123456789''"
    and ds: "list_all (\<lambda>ch. ch \<in> set ''0123456789'') ds"
    and bound: "number_from (10 * n + digit_value ch) ds < 2 ^ 53"
    by simp_all
  note dg = decimal_digit [OF ch] and dp = decimal_digit_val [OF ch, of ?p]
  have "10 * n + digit_value ch \<le> number_from (10 * n + digit_value ch) ds"
    by (rule number_from_mono)
  with bound have small: "10 * n + digit_value ch < 2 ^ 53"
    by simp
  have n': "fp_add ?p (fp_mul ?p (Finite (of_nat n)) (fp_of_int ?p 10))
        (fp_of_int ?p (char_val ?p ch - 48)) = Finite (of_nat (10 * n + digit_value ch))"
    unfolding ieee_binary64_sel dp(2) by (rule b64_digit_step [OF small])
  have ten: "b64_round 10 = Finite 10"
    using b64_round_nat [of 10] by simp
  have f': "(if b then fp_div ?p (tenths j) (fp_of_int ?p 10) else tenths j) =
      tenths (if b then Suc j else j)"
    by (simp add: ten ieee_binary64_sel)
  have "toFloat_loop ?p ((ch # ds) @ rest) (Finite (of_nat n)) (tenths j) b =
      toFloat_loop ?p (ds @ rest) (Finite (of_nat (10 * n + digit_value ch)))
        (tenths (if b then Suc j else j)) b"
    using dg(1,2) dp(1) by (simp only: append_Cons toFloat_loop_step n' f' if_True simp_thms)
  also have "\<dots> = toFloat_loop ?p rest
      (Finite (of_nat (number_from (10 * n + digit_value ch) ds)))
      (tenths (if b then (if b then Suc j else j) + length ds else (if b then Suc j else j))) b"
    by (rule Cons.IH [OF ds bound])
  finally show ?case
    by (simp del: tenths.simps)
qed

lemma eatWS_spaces:
  "list_all isSpace ws \<Longrightarrow> \<not> isSpace ch \<Longrightarrow> eatWS (ws @ ch # s) = Inr (ch # s)"
  by (induction ws) simp_all

lemma eatLine_line:
  "NUL \<notin> set line \<Longrightarrow> newline \<notin> set line \<Longrightarrow> eatLine (line @ newline # rest) = Inr rest"
  by (induction line) (auto simp: NUL_def newline_def)

text \<open>\<^verbatim>\<open>toFloat\<close> on a decimal number with a point and on one without, in binary64.\<close>

lemma toFloat_decimal:
  assumes "decimal ip" and "list_all (\<lambda>ch. ch \<in> set ''0123456789'') fp"
    and "number_from 0 (ip @ fp) < 2 ^ 53" and "list_all isSpace ws"
  shows "toFloat (ieee_binary64 lx sh sg) (ws @ ip @ CHR ''.'' # fp @ CHR '';'' # rest) =
           Inr (b64_mul (Finite (of_nat (number_from 0 (ip @ fp)))) (tenths (length fp)),
                CHR '';'' # rest)"
    and "toFloat (ieee_binary64 lx sh sg) (ws @ ip @ CHR '';'' # rest) =
           Inr (b64_mul (Finite (of_nat (number_from 0 ip))) (tenths 0), CHR '';'' # rest)"
proof -
  let ?p = "ieee_binary64 lx sh sg"
  from assms(1) obtain ch ip' where ip: "ip = ch # ip'" and ch: "ch \<in> set ''0123456789''"
    and digits: "list_all (\<lambda>ch. ch \<in> set ''0123456789'') ip"
    by (cases ip) (auto simp: decimal_def)
  note dg = decimal_digit [OF ch] and dp = decimal_digit_val [OF ch, of ?p]
  have zero: "fp_of_int ?p 0 = Finite (of_nat 0)" and one: "fp_of_int ?p 1 = tenths 0"
    using b64_round_nat [of 0] b64_round_nat [of 1] by (simp_all add: ieee_binary64_sel)
  have start: "toFloat ?p (ws @ ip @ s) =
      toFloat_loop ?p (ip @ s) (Finite (of_nat 0)) (tenths 0) False" for s
    using dp(1) eatWS_spaces [OF assms(4) dg(3), of "ip' @ s"]
    by (simp add: toFloat_def ip zero one del: tenths.simps of_nat_0)
  have "number_from 0 ip \<le> number_from 0 (ip @ fp)"
    by (simp add: number_from_append number_from_mono)
  with assms(3) have small: "number_from 0 ip < 2 ^ 53"
    by simp
  have point: "\<not> isDigit ?p (CHR ''.'')"
    by (simp add: isDigit_def char_val_def)
  have "toFloat ?p (ws @ ip @ CHR ''.'' # fp @ CHR '';'' # rest) =
      toFloat_loop ?p (CHR ''.'' # fp @ CHR '';'' # rest)
        (Finite (of_nat (number_from 0 ip))) (tenths 0) False"
    unfolding start using toFloat_loop_digits [OF digits small, of lx sh sg _ 0 False] by simp
  also have "\<dots> = toFloat_loop ?p (fp @ CHR '';'' # rest)
      (Finite (of_nat (number_from 0 ip))) (tenths 0) True"
    using point by (subst toFloat_loop_step) simp_all
  also have "\<dots> = toFloat_loop ?p (CHR '';'' # rest)
      (Finite (of_nat (number_from (number_from 0 ip) fp))) (tenths (length fp)) True"
    using toFloat_loop_digits [OF assms(2), of "number_from 0 ip" lx sh sg _ 0 True] assms(3)
    by (simp add: number_from_append del: tenths.simps)
  finally show "toFloat ?p (ws @ ip @ CHR ''.'' # fp @ CHR '';'' # rest) =
      Inr (b64_mul (Finite (of_nat (number_from 0 (ip @ fp)))) (tenths (length fp)),
           CHR '';'' # rest)"
    by (simp add: toFloat_loop_semicolon number_from_append ieee_binary64_sel del: tenths.simps)
  have "toFloat ?p (ws @ ip @ CHR '';'' # rest) =
      toFloat_loop ?p (CHR '';'' # rest) (Finite (of_nat (number_from 0 ip))) (tenths 0) False"
    unfolding start using toFloat_loop_digits [OF digits small, of lx sh sg _ 0 False] by simp
  then show "toFloat ?p (ws @ ip @ CHR '';'' # rest) =
      Inr (b64_mul (Finite (of_nat (number_from 0 ip))) (tenths 0), CHR '';'' # rest)"
    by (simp add: toFloat_loop_semicolon ieee_binary64_sel del: tenths.simps)
qed

subsection \<open>The version check\<close>

lemma to_stim_loop_version:
  assumes "toFloat p s = Inr (version, s')" and "length (eof c) < length (''OPENQASM'' @ s)"
  shows "to_stim_loop p (''OPENQASM'' @ s) c =
           (if fp_neq p version (fp_of_int p 2) then Inl UnsupportedVersion
            else (case eatLine s' of Inl e \<Rightarrow> Inl e | Inr s'' \<Rightarrow> to_stim_loop p s'' c))"
  using assms
  by (subst to_stim_loop_go)
    (simp_all add: to_stim_step_def match_def isSpace_def NUL_def split: sum.splits)

lemma b64_neq_2: "fp_neq (ieee_binary64 lx sh sg) v (fp_of_int (ieee_binary64 lx sh sg) 2) \<longleftrightarrow> v \<noteq> Finite 2"
proof -
  have "b64_round (of_int 2) = Finite 2"
    using b64_round_nat [of 2] by simp
  then show ?thesis
    by (cases v) (simp_all add: ieee_binary64_sel)
qed




text \<open>The digits of \<^verbatim>\<open>2.0000000000000001\<close> in the loop of \<^verbatim>\<open>toFloat\<close>.\<close>

lemma toFloat_rounds_to_2:
  "toFloat (ieee_binary64 lx sh sg) ('' 2.0000000000000001;'' @ rest) =
     Inr (Finite 2, '';'' @ rest)"
  by (simp add: version_eval del: toFloat_loop.simps)


text \<open>Two slips of \<^verbatim>\<open>toFloat\<close> refuse files that declare 2.0. The loop divides
  \<^verbatim>\<open>f\<close> for every byte behind the point, digit or not: a blank before the semicolon
  makes \<^verbatim>\<open>2.0 ;\<close> the version 0.2 (the binary64 number next to it). And with six to fourteen zeros behind the point
  the rounded factor is too far from the power of ten: \<^verbatim>\<open>2.000000\<close> is not 2.0.\<close>

lemma version_2_refused:
  "to_stim (ieee_binary64 lx sh sg) (read_qasm (ieee_binary64 lx sh sg) f ''OPENQASM 2.0 ;'') =
     Inl UnsupportedVersion"
  "toFloat (ieee_binary64 lx sh sg) ('' 2.0 ;'' @ rest) = Inr (Finite (3602879701896397 / 18014398509481984), '';'' @ rest)"
  "6 \<le> k \<Longrightarrow> k \<le> 14 \<Longrightarrow> list_all isSpace ws \<Longrightarrow> length (eof c) \<le> length rest \<Longrightarrow>
   to_stim_loop (ieee_binary64 lx sh sg)
       (''OPENQASM'' @ ws @ ''2.'' @ replicate k (CHR ''0'') @ '';'' @ rest) c =
     Inl UnsupportedVersion"
proof -
  let ?p = "ieee_binary64 lx sh sg"
  show blank: "toFloat ?p ('' 2.0 ;'' @ rest) = Inr (Finite (3602879701896397 / 18014398509481984), '';'' @ rest)" for rest
    by (simp add: version_eval del: toFloat_loop.simps)
  define c0 where "c0 = read_qasm ?p f ''OPENQASM 2.0 ;''"
  have e: "eof c0 = [NUL]"
    by (simp add: c0_def read_qasm_def small_file)
  have "to_stim_loop ?p (''OPENQASM'' @ ('' 2.0 ;'' @ [NUL])) c0 = Inl UnsupportedVersion"
    by (subst to_stim_loop_version [OF blank]) (simp_all add: e b64_neq_2)
  then have "to_stim ?p c0 = Inl UnsupportedVersion"
    by (simp add: to_stim_def e) (simp add: c0_def read_qasm_def)
  then show "to_stim ?p (read_qasm ?p f ''OPENQASM 2.0 ;'') = Inl UnsupportedVersion"
    by (simp only: c0_def)
  show "to_stim_loop ?p (''OPENQASM'' @ ws @ ''2.'' @ replicate k (CHR ''0'') @ '';'' @ rest) c =
      Inl UnsupportedVersion"
    if k: "6 \<le> k" "k \<le> 14" and ws: "list_all isSpace ws" and r: "length (eof c) \<le> length rest"
  proof -
    define zeros where "zeros = replicate k (CHR ''0'')"
    define s where "s = ws @ ''2'' @ CHR ''.'' # zeros @ CHR '';'' # rest"
    have zeros: "list_all (\<lambda>ch. ch \<in> set ''0123456789'') zeros" "length zeros = k"
      "number_from 0 (''2'' @ zeros) = 2 * 10 ^ k"
      by (simp_all add: zeros_def list_all_iff number_from_zeros digit_value_def)
    have "(2::nat) * 10 ^ k \<le> 2 * 10 ^ 14"
      using k(2) by (intro mult_left_mono power_increasing) simp_all
    then have small: "number_from 0 (''2'' @ zeros) < 2 ^ 53"
      by (simp only: zeros(3)) simp
    have two: "decimal ''2''"
      by (simp add: decimal_def)
    define v where "v = b64_mul (Finite (of_nat (number_from 0 (''2'' @ zeros)))) (tenths (length zeros))"
    have f: "toFloat ?p s = Inr (v, CHR '';'' # rest)"
      unfolding s_def v_def by (rule toFloat_decimal(1) [OF two zeros(1) small ws])
    have "v \<noteq> Finite 2"
      unfolding v_def zeros(2) by (rule none_passes [OF k])
    then have "to_stim_loop ?p (''OPENQASM'' @ s) c = Inl UnsupportedVersion"
      using r by (subst to_stim_loop_version [OF f]) (simp_all add: s_def b64_neq_2)
    then show ?thesis
      by (simp add: s_def zeros_def)
  qed
qed

end
